theory Spec2Isabelle
  imports Main
begin

section \<open>Data model\<close>

text \<open>
  Modelled from the spec: the enumeration \<^verbatim>\<open>CartStatus\<close> of \<^verbatim>\<open>CartStatus.ts\<close>, which is
  imported by \<^verbatim>\<open>AsyncCart.ts\<close> but is not among the sources. The spec gives it exactly the
  three values the source uses: \<^verbatim>\<open>CartStatus.IDLE\<close>, \<^verbatim>\<open>CartStatus.UPDATING\<close> and
  \<^verbatim>\<open>CartStatus.READY\<close>.
\<close>

datatype CartStatus = IDLE | UPDATING | READY

text \<open>
  \<^verbatim>\<open>CartCreateInput\<close>: every field is optional; \<^verbatim>\<open>{}\<close> is the input with no field set.
  A \<^verbatim>\<open>Record<string, string>\<close> is an association list.
\<close>

record ('bt, 'lt) CartCreateInput =
  buyer :: "'bt option"
  discountCodes :: "string list option"
  attributes :: "(string \<times> string) list option"
  lineItems :: "'lt list option"

definition emptyInput :: "('bt, 'lt) CartCreateInput" where
  "emptyInput = \<lparr>buyer = None, discountCodes = None, attributes = None, lineItems = None\<rparr>"

text \<open>
  \<^verbatim>\<open>ProviderConfig.queries\<close>. The snapshot type \<^verbatim>\<open>CT\<close> is opaque: the coordinator only
  applies these two functions to it. \<^verbatim>\<open>onError\<close> and \<^verbatim>\<open>operations\<close> are effects; they are
  recorded in the state (\<open>errors\<close>, \<open>calls\<close>) and the provider's answers arrive as inputs.
  A value of type \<^verbatim>\<open>CT | null\<close> is an \<open>option\<close>; a snapshot is an object, so the tests
  \<^verbatim>\<open>result ?\<close>, \<^verbatim>\<open>this._cart &&\<close>, \<^verbatim>\<open>this._cart ||\<close> and \<^verbatim>\<open>!cart\<close> tell a snapshot from
  \<^verbatim>\<open>null\<close> and nothing else.
\<close>

record 'ct ProviderConfig =
  cartId :: "'ct \<Rightarrow> string"
  cartRevisionId :: "'ct \<Rightarrow> string"

text \<open>
  The events the coordinator dispatches: \<^verbatim>\<open>new CartEvent(name, cart)\<close> with the detail
  \<^verbatim>\<open>{ cart }\<close> (the cart may be \<^verbatim>\<open>null\<close>), and
  \<^verbatim>\<open>new CartStatusChangeEvent(status)\<close>, whose name is \<^verbatim>\<open>'statuschange'\<close>.
\<close>

datatype 'ct event =
    CartEvent string "'ct option"
  | CartStatusChangeEvent CartStatus

text \<open>
  The six methods that need a cart differ only in the provider operation they call and in
  the message of the error they throw; \<open>mutation\<close> names the method together with its
  argument.
\<close>

datatype ('bt, 'lt) mutation =
    UpdateBuyer 'bt
  | UpdateDiscountCodes "string list"
  | UpdateAttributes "(string \<times> string) list"
  | AddLineItems "'lt list"
  | UpdateLineItems "'lt list"
  | RemoveLineItems "string list"

fun unable :: "('bt, 'lt) mutation \<Rightarrow> string" where
  "unable (UpdateBuyer _) = ''Unable to update buyer''"
| "unable (UpdateDiscountCodes _) = ''Unable to update discount codes''"
| "unable (UpdateAttributes _) = ''Unable to update attributes''"
| "unable (AddLineItems _) = ''Unable to add line items''"
| "unable (UpdateLineItems _) = ''Unable to update line items''"
| "unable (RemoveLineItems _) = ''Unable to remove line items''"

text \<open>The closure a public method hands to \<^verbatim>\<open>runCartOperation\<close>.\<close>

datatype ('bt, 'lt) operation =
    Fetch string
  | Create "('bt, 'lt) CartCreateInput"
  | Mutate "('bt, 'lt) mutation"

text \<open>
  A call of one of \<^verbatim>\<open>ProviderConfig.operations\<close>; \<open>CallMutation c (UpdateBuyer b)\<close> is
  \<^verbatim>\<open>operations.updateBuyer(c, b)\<close>, and so on for the other five.
\<close>

datatype ('ct, 'bt, 'lt) provider_call =
    CallFetch string
  | CallCreate "('bt, 'lt) CartCreateInput"
  | CallMutation 'ct "('bt, 'lt) mutation"

text \<open>
  What a task can fail with: the provider's promise rejects (with a reason the coordinator
  does not look at), or the closure itself throws \<^verbatim>\<open>new Error(message)\<close>.
\<close>

datatype failure = Rejected string | Error string

text \<open>
  Who waits for the promise of a \<^verbatim>\<open>runCartOperation\<close> call: the caller of a public method
  (\<^verbatim>\<open>return this.runCartOperation(...)\<close>), nobody (\<^verbatim>\<open>fetch\<close> drops the promise), or the
  closure of the task with the given number, suspended at \<^verbatim>\<open>await this.create({})\<close>.
\<close>

datatype caller = Caller | Discarded | Closure nat

text \<open>
  One call of \<^verbatim>\<open>runCartOperation\<close>: its closure and its two locals \<^verbatim>\<open>result\<close> and
  \<^verbatim>\<open>currentRevisionId\<close>, which are read before the closure is queued. \<open>tid\<close> numbers the
  calls in the order they are made.
\<close>

record ('ct, 'bt, 'lt) task =
  tid :: nat
  operation :: "('bt, 'lt) operation"
  result :: "'ct option"
  currentRevisionId :: "string option"
  caller :: caller

text \<open>
  A task that has been started is suspended either at the promise of its provider call or,
  in a mutation that found no cart, at \<^verbatim>\<open>await this.create({})\<close> (the number is the \<open>tid\<close> of
  that nested call).
\<close>

datatype phase = InFlight | AwaitingCreate nat

text \<open>
  Modelled from the spec: the operation serializer. The source uses the class \<^verbatim>\<open>PQueue\<close> of
  the package \<^verbatim>\<open>p-queue\<close>, which is not part of the repository; what is in the source is
  \<^verbatim>\<open>new PQueue({ concurrency: 1 })\<close>, \<^verbatim>\<open>add\<close> and the \<^verbatim>\<open>'idle'\<close> listener. Following the spec,
  the queue holds the tasks that wait in submission order and the tasks that have been
  started; a waiting task is started only while fewer than \<open>concurrency\<close> tasks are started.

  The spec does not say whether, when a task settles, the queue first does its own work
  (start the next task, or report \<^verbatim>\<open>'idle'\<close>) or first lets the submitter that awaits the
  task's handle continue. \<open>notifyFirst\<close> is that choice: \<open>True\<close> when the queue's work comes
  first, \<open>False\<close> when the submitter continues first. It is a parameter of the model and
  every result below holds for both values.

  The spec gives the serializer a bound on the execution time of a task, to be configured.
  The source configures none: the options of the constructor are \<^verbatim>\<open>{ concurrency: 1 }\<close>, and
  \<^verbatim>\<open>add\<close> is passed \<^verbatim>\<open>{ throwOnTimeout: true }\<close>, which says how an expiry is reported and
  sets no bound. So the queue of the model has no timer: a started task leaves the queue
  when it settles and not before.
\<close>

record ('ct, 'bt, 'lt) PQueue =
  concurrency :: nat
  notifyFirst :: bool
  waiting :: "('ct, 'bt, 'lt) task list"
  active :: "(('ct, 'bt, 'lt) task \<times> phase) list"

text \<open>What a promise handed to a caller resolves with.\<close>

datatype 'ct retval = Undefined | Snapshot "'ct option"

text \<open>Marks left by the queue in \<open>trace\<close>: a task is started, a task has settled.\<close>

datatype qevent = Started nat | Finished nat

text \<open>
  The coordinator: the fields of the class \<^verbatim>\<open>AsyncCart\<close>, followed by what an observer of
  the object sees, in the order it happens: the events dispatched, the provider operations
  called, the errors passed to \<^verbatim>\<open>onError\<close>, the values the callers' promises resolved with
  (paired with the number of the call), the number of \<^verbatim>\<open>runCartOperation\<close> calls so far, and
  the marks of the queue.
\<close>

record ('ct, 'bt, 'lt) AsyncCart =
  config :: "'ct ProviderConfig"
  status :: CartStatus
  cart :: "'ct option"
  previousCartRevisionId :: "string option"
  queue :: "('ct, 'bt, 'lt) PQueue"
  dispatched :: "'ct event list"
  calls :: "('ct, 'bt, 'lt) provider_call list"
  errors :: "failure list"
  returned :: "(nat \<times> 'ct retval) list"
  submitted :: nat
  trace :: "qevent list"

section \<open>The coordinator\<close>

text \<open>The constructor: status \<^verbatim>\<open>IDLE\<close>, no cart, no previous revision, a queue of concurrency 1.\<close>

definition init :: "'ct ProviderConfig \<Rightarrow> bool \<Rightarrow> ('ct, 'bt, 'lt) AsyncCart" where
  "init cfg nf =
     \<lparr>config = cfg, status = IDLE, cart = None, previousCartRevisionId = None,
      queue = \<lparr>concurrency = 1, notifyFirst = nf, waiting = [], active = []\<rparr>,
      dispatched = [], calls = [], errors = [], returned = [], submitted = 0, trace = []\<rparr>"

definition dispatchEvent :: "'ct event \<Rightarrow> ('ct, 'bt, 'lt) AsyncCart \<Rightarrow> ('ct, 'bt, 'lt) AsyncCart" where
  "dispatchEvent e s = s\<lparr>dispatched := dispatched s @ [e]\<rparr>"

text \<open>
  The listener the constructor registers for the queue's \<^verbatim>\<open>'idle'\<close>. \<^verbatim>\<open>this._cart &&\<close> holds
  for a snapshot and fails for \<^verbatim>\<open>null\<close>; \<^verbatim>\<open>!==\<close> compares the revision, a string, with a
  \<^verbatim>\<open>string | null\<close>.
\<close>

definition onIdle :: "('ct, 'bt, 'lt) AsyncCart \<Rightarrow> ('ct, 'bt, 'lt) AsyncCart" where
  "onIdle s =
     (let s1 = dispatchEvent (CartEvent ''idle'' (cart s)) s in
      case cart s1 of
        None \<Rightarrow> s1
      | Some c \<Rightarrow>
          if Some (cartRevisionId (config s1) c) \<noteq> previousCartRevisionId s1
          then dispatchEvent (CartEvent ''change'' (cart s1)) s1
          else s1)"

text \<open>
  \<^verbatim>\<open>runCartOperation\<close> up to and including the point where \<^verbatim>\<open>this._queue.add\<close> has put
  the closure into the queue: \<^verbatim>\<open>result\<close> and \<^verbatim>\<open>currentRevisionId\<close> are read, the status
  becomes \<^verbatim>\<open>UPDATING\<close> and the status event is dispatched.
\<close>

definition submit ::
  "('bt, 'lt) operation \<Rightarrow> caller \<Rightarrow> ('ct, 'bt, 'lt) AsyncCart \<Rightarrow> ('ct, 'bt, 'lt) AsyncCart" where
  "submit opn clr s =
     (let r = cart s;
          rev = map_option (cartRevisionId (config s)) r;
          s1 = dispatchEvent (CartStatusChangeEvent UPDATING) (s\<lparr>status := UPDATING\<rparr>);
          t = \<lparr>tid = submitted s1, operation = opn, result = r, currentRevisionId = rev,
               caller = clr\<rparr>
      in s1\<lparr>submitted := Suc (submitted s1),
            queue := (queue s1)\<lparr>waiting := waiting (queue s1) @ [t]\<rparr>\<rparr>)"

text \<open>
  A closure runs until it first has to wait. \<^verbatim>\<open>fetch\<close> and \<^verbatim>\<open>create\<close> call the provider at
  once. A mutation reads \<^verbatim>\<open>this._cart\<close>: with a cart it calls the provider; without one it
  calls \<^verbatim>\<open>this.create({})\<close>, which is a \<^verbatim>\<open>runCartOperation\<close> of its own, and waits for it.
\<close>

definition invoke ::
  "('ct, 'bt, 'lt) task \<Rightarrow> ('ct, 'bt, 'lt) AsyncCart \<Rightarrow> ('ct, 'bt, 'lt) AsyncCart \<times> phase" where
  "invoke t s =
     (case operation t of
        Fetch i \<Rightarrow> (s\<lparr>calls := calls s @ [CallFetch i]\<rparr>, InFlight)
      | Create input \<Rightarrow> (s\<lparr>calls := calls s @ [CallCreate input]\<rparr>, InFlight)
      | Mutate m \<Rightarrow>
          (case cart s of
             Some c \<Rightarrow> (s\<lparr>calls := calls s @ [CallMutation c m]\<rparr>, InFlight)
           | None \<Rightarrow> (submit (Create emptyInput) (Closure (tid t)) s, AwaitingCreate (submitted s))))"

text \<open>
  Modelled from the spec: the serializer starting a task (\<^verbatim>\<open>PQueue\<close> is not in the
  repository). The queue takes its first waiting task, counts it as started and runs its
  closure as far as it goes.
\<close>

definition startFirst :: "('ct, 'bt, 'lt) AsyncCart \<Rightarrow> ('ct, 'bt, 'lt) AsyncCart" where
  "startFirst s =
     (case waiting (queue s) of
        [] \<Rightarrow> s
      | t # ts \<Rightarrow>
          (let s1 = s\<lparr>queue := (queue s)\<lparr>waiting := ts\<rparr>, trace := trace s @ [Started (tid t)]\<rparr>;
               (s2, ph) = invoke t s1
           in s2\<lparr>queue := (queue s2)\<lparr>active := active (queue s2) @ [(t, ph)]\<rparr>\<rparr>))"

text \<open>
  Modelled from the spec: the serializer's concurrency limit (\<^verbatim>\<open>PQueue\<close> is not in the
  repository). The queue starts waiting tasks, in their order, as long as fewer than
  \<open>concurrency\<close> tasks are started.
\<close>

function pump :: "('ct, 'bt, 'lt) AsyncCart \<Rightarrow> ('ct, 'bt, 'lt) AsyncCart" where
  "pump s =
     (if waiting (queue s) \<noteq> [] \<and> length (active (queue s)) < concurrency (queue s)
      then pump (startFirst s) else s)"
  by pat_completeness auto
termination
  by (relation "measure (\<lambda>s. concurrency (queue s) - length (active (queue s)))")
     (auto simp: startFirst_def invoke_def submit_def dispatchEvent_def Let_def
           split: list.splits operation.splits option.splits prod.splits)

declare pump.simps [simp del]

text \<open>
  \<^verbatim>\<open>runCartOperation\<close> as far as it runs when it is called: the part above, and the queue
  starting the closure if it is free (\<^verbatim>\<open>add\<close>).
\<close>

definition runCartOperation ::
  "('bt, 'lt) operation \<Rightarrow> caller \<Rightarrow> ('ct, 'bt, 'lt) AsyncCart \<Rightarrow> ('ct, 'bt, 'lt) AsyncCart" where
  "runCartOperation opn clr s = pump (submit opn clr s)"

text \<open>
  Modelled from the spec: the serializer's work when a started task has settled (\<^verbatim>\<open>PQueue\<close>
  is not in the repository). The task leaves the queue, the next waiting task is started,
  and when nothing waits and nothing is started the queue reports \<^verbatim>\<open>'idle'\<close>, which runs
  the listener of the constructor.
\<close>

definition leave ::
  "('ct, 'bt, 'lt) task \<Rightarrow> ('ct, 'bt, 'lt) AsyncCart \<Rightarrow> ('ct, 'bt, 'lt) AsyncCart" where
  "leave t s =
     (let s1 = s\<lparr>queue := (queue s)\<lparr>active := filter (\<lambda>(u, ph). tid u \<noteq> tid t) (active (queue s))\<rparr>,
                 trace := trace s @ [Finished (tid t)]\<rparr>;
          s2 = pump s1
      in if waiting (queue s2) = [] \<and> active (queue s2) = [] then onIdle s2 else s2)"

text \<open>
  \<^verbatim>\<open>runCartOperation\<close> after \<^verbatim>\<open>await queuePromise\<close>, to the end of the \<^verbatim>\<open>finally\<close> block.
  The outcome of the task is \<open>Inr v\<close> when its promise resolved with \<open>v\<close> and \<open>Inl e\<close> when it
  rejected with \<open>e\<close>.
\<close>

definition complete ::
  "('ct, 'bt, 'lt) task \<Rightarrow> failure + 'ct \<Rightarrow> ('ct, 'bt, 'lt) AsyncCart \<Rightarrow> ('ct, 'bt, 'lt) AsyncCart" where
  "complete t out s =
     (let s1 =
        (case out of
           Inr v \<Rightarrow>
             (let s' = s\<lparr>cart := Some v\<rparr> in
              if Some (cartRevisionId (config s') v) \<noteq> currentRevisionId t
              then s'\<lparr>previousCartRevisionId := currentRevisionId t\<rparr>
              else s')
         | Inl err \<Rightarrow> s\<lparr>errors := errors s @ [err]\<rparr>)
      in dispatchEvent (CartStatusChangeEvent READY) (s1\<lparr>status := READY\<rparr>))"

text \<open>\<^verbatim>\<open>return result\<close>: the task's value, or what \<^verbatim>\<open>result\<close> was set to at the call.\<close>

definition returnValue :: "('ct, 'bt, 'lt) task \<Rightarrow> failure + 'ct \<Rightarrow> 'ct option" where
  "returnValue t out = (case out of Inr v \<Rightarrow> Some v | Inl err \<Rightarrow> result t)"

text \<open>
  A started task settles with \<open>out\<close>: the queue does its work and \<^verbatim>\<open>runCartOperation\<close>
  continues and hands its value to \<open>k\<close>, in the order \<open>notifyFirst\<close> gives.
\<close>

definition settleWith ::
  "('ct option \<Rightarrow> ('ct, 'bt, 'lt) AsyncCart \<Rightarrow> ('ct, 'bt, 'lt) AsyncCart) \<Rightarrow>
   ('ct, 'bt, 'lt) task \<Rightarrow> failure + 'ct \<Rightarrow> ('ct, 'bt, 'lt) AsyncCart \<Rightarrow> ('ct, 'bt, 'lt) AsyncCart" where
  "settleWith k t out s =
     (if notifyFirst (queue s)
      then k (returnValue t out) (complete t out (leave t s))
      else leave t (k (returnValue t out) (complete t out s)))"

text \<open>The promise of a public method resolves; a dropped promise has no observer.\<close>

definition toCaller ::
  "('ct, 'bt, 'lt) task \<Rightarrow> 'ct option \<Rightarrow> ('ct, 'bt, 'lt) AsyncCart \<Rightarrow> ('ct, 'bt, 'lt) AsyncCart" where
  "toCaller t r s =
     (case caller t of
        Caller \<Rightarrow> s\<lparr>returned := returned s @ [(tid t, Snapshot r)]\<rparr>
      | Discarded \<Rightarrow> s
      | Closure m \<Rightarrow> s)"

text \<open>
  The closure of task \<open>m\<close> continues after \<^verbatim>\<open>await this.create({})\<close> with the value \<open>r\<close>:
  \<^verbatim>\<open>if (!cart) throw new Error(...)\<close>, otherwise the provider is called with the cart. A throw
  settles the task \<open>m\<close> itself; the methods that build such a closure return its promise to
  their caller.
\<close>

definition resume ::
  "nat \<Rightarrow> 'ct option \<Rightarrow> ('ct, 'bt, 'lt) AsyncCart \<Rightarrow> ('ct, 'bt, 'lt) AsyncCart" where
  "resume m r s =
     (case List.find (\<lambda>(u, ph). tid u = m) (active (queue s)) of
        Some (u, AwaitingCreate i) \<Rightarrow>
          (case operation u of
             Mutate mu \<Rightarrow>
               (case r of
                  Some c \<Rightarrow>
                    s\<lparr>calls := calls s @ [CallMutation c mu],
                      queue := (queue s)\<lparr>active :=
                        map (\<lambda>(w, ph). if tid w = m then (w, InFlight) else (w, ph))
                          (active (queue s))\<rparr>\<rparr>
                | None \<Rightarrow> settleWith (toCaller u) u (Inl (Error (unable mu))) s)
           | Fetch a \<Rightarrow> s
           | Create a \<Rightarrow> s)
      | Some (u, InFlight) \<Rightarrow> s
      | None \<Rightarrow> s)"

text \<open>Whoever awaits the promise of this \<^verbatim>\<open>runCartOperation\<close> receives its value.\<close>

definition deliver ::
  "('ct, 'bt, 'lt) task \<Rightarrow> 'ct option \<Rightarrow> ('ct, 'bt, 'lt) AsyncCart \<Rightarrow> ('ct, 'bt, 'lt) AsyncCart" where
  "deliver t r s =
     (case caller t of
        Closure m \<Rightarrow> resume m r s
      | Caller \<Rightarrow> toCaller t r s
      | Discarded \<Rightarrow> toCaller t r s)"

definition settle ::
  "('ct, 'bt, 'lt) task \<Rightarrow> failure + 'ct \<Rightarrow> ('ct, 'bt, 'lt) AsyncCart \<Rightarrow> ('ct, 'bt, 'lt) AsyncCart" where
  "settle t out s = settleWith (deliver t) t out s"

subsection \<open>The public methods\<close>

text \<open>
  \<^verbatim>\<open>fetch\<close> calls \<^verbatim>\<open>runCartOperation\<close> without returning or awaiting its promise: the promise
  of \<^verbatim>\<open>fetch\<close> itself resolves with \<^verbatim>\<open>undefined\<close> as soon as the call has been made.
\<close>

definition fetch :: "string \<Rightarrow> ('ct, 'bt, 'lt) AsyncCart \<Rightarrow> ('ct, 'bt, 'lt) AsyncCart" where
  "fetch i s =
     (let s1 = runCartOperation (Fetch i) Discarded s
      in s1\<lparr>returned := returned s1 @ [(submitted s, Undefined)]\<rparr>)"

definition create ::
  "('bt, 'lt) CartCreateInput \<Rightarrow> ('ct, 'bt, 'lt) AsyncCart \<Rightarrow> ('ct, 'bt, 'lt) AsyncCart" where
  "create input s = runCartOperation (Create input) Caller s"

definition updateBuyer :: "'bt \<Rightarrow> ('ct, 'bt, 'lt) AsyncCart \<Rightarrow> ('ct, 'bt, 'lt) AsyncCart" where
  "updateBuyer input s = runCartOperation (Mutate (UpdateBuyer input)) Caller s"

definition updateDiscountCodes ::
  "string list \<Rightarrow> ('ct, 'bt, 'lt) AsyncCart \<Rightarrow> ('ct, 'bt, 'lt) AsyncCart" where
  "updateDiscountCodes input s = runCartOperation (Mutate (UpdateDiscountCodes input)) Caller s"

definition updateAttributes ::
  "(string \<times> string) list \<Rightarrow> ('ct, 'bt, 'lt) AsyncCart \<Rightarrow> ('ct, 'bt, 'lt) AsyncCart" where
  "updateAttributes input s = runCartOperation (Mutate (UpdateAttributes input)) Caller s"

definition addLineItems :: "'lt list \<Rightarrow> ('ct, 'bt, 'lt) AsyncCart \<Rightarrow> ('ct, 'bt, 'lt) AsyncCart" where
  "addLineItems input s = runCartOperation (Mutate (AddLineItems input)) Caller s"

definition updateLineItems :: "'lt list \<Rightarrow> ('ct, 'bt, 'lt) AsyncCart \<Rightarrow> ('ct, 'bt, 'lt) AsyncCart" where
  "updateLineItems input s = runCartOperation (Mutate (UpdateLineItems input)) Caller s"

definition removeLineItems ::
  "string list \<Rightarrow> ('ct, 'bt, 'lt) AsyncCart \<Rightarrow> ('ct, 'bt, 'lt) AsyncCart" where
  "removeLineItems input s = runCartOperation (Mutate (RemoveLineItems input)) Caller s"

subsection \<open>Runs\<close>

text \<open>
  What happens to the object from outside: a caller calls a public method, or the provider
  settles the promise of the call it received from the started task with the given number
  (\<open>Inr v\<close>: resolved with \<open>v\<close>; \<open>Inl e\<close>: rejected with \<open>e\<close>). Between two such inputs the
  object runs until every continuation has to wait. A settlement for a task that has no
  provider call in flight does not occur; \<open>step\<close> leaves the state as it is. Listeners and
  \<^verbatim>\<open>onError\<close> only observe: they neither throw nor call the object while it runs.
\<close>

datatype ('ct, 'bt, 'lt) input =
    Call "('bt, 'lt) operation"
  | Settle nat "failure + 'ct"

fun callMethod :: "('bt, 'lt) operation \<Rightarrow> ('ct, 'bt, 'lt) AsyncCart \<Rightarrow> ('ct, 'bt, 'lt) AsyncCart" where
  "callMethod (Fetch i) = fetch i"
| "callMethod (Create input) = create input"
| "callMethod (Mutate (UpdateBuyer input)) = updateBuyer input"
| "callMethod (Mutate (UpdateDiscountCodes input)) = updateDiscountCodes input"
| "callMethod (Mutate (UpdateAttributes input)) = updateAttributes input"
| "callMethod (Mutate (AddLineItems input)) = addLineItems input"
| "callMethod (Mutate (UpdateLineItems input)) = updateLineItems input"
| "callMethod (Mutate (RemoveLineItems input)) = removeLineItems input"

fun step :: "('ct, 'bt, 'lt) AsyncCart \<Rightarrow> ('ct, 'bt, 'lt) input \<Rightarrow> ('ct, 'bt, 'lt) AsyncCart" where
  "step s (Call opn) = callMethod opn s"
| "step s (Settle n out) =
     (case List.find (\<lambda>(t, ph). tid t = n \<and> ph = InFlight) (active (queue s)) of
        Some (t, ph) \<Rightarrow> settle t out s
      | None \<Rightarrow> s)"

definition run ::
  "('ct, 'bt, 'lt) AsyncCart \<Rightarrow> ('ct, 'bt, 'lt) input list \<Rightarrow> ('ct, 'bt, 'lt) AsyncCart" where
  "run s ins = foldl step s ins"

section \<open>Well-formed states\<close>

text \<open>
  Auxiliary notions for the proofs. A task is \<open>plain\<close> when it was queued by a public
  method (not from inside a closure), and its promise is dropped exactly when the method is
  \<^verbatim>\<open>fetch\<close>. The queue is \<open>stuck\<close> when its only started task waits for a nested
  \<^verbatim>\<open>create\<close>, and \<open>flowing\<close> when it is empty or its only started task waits for the
  provider and every task is plain.
\<close>

fun fromClosure :: "caller \<Rightarrow> bool" where
  "fromClosure (Closure m) = True"
| "fromClosure Caller = False"
| "fromClosure Discarded = False"

fun isFetch :: "('bt, 'lt) operation \<Rightarrow> bool" where
  "isFetch (Fetch i) = True"
| "isFetch (Create input) = False"
| "isFetch (Mutate m) = False"

definition plain :: "('ct, 'bt, 'lt) task \<Rightarrow> bool" where
  "plain t \<longleftrightarrow> \<not> fromClosure (caller t) \<and> (caller t = Discarded \<longleftrightarrow> isFetch (operation t))"

definition stuck :: "('ct, 'bt, 'lt) AsyncCart \<Rightarrow> bool" where
  "stuck s \<longleftrightarrow> (\<exists>t i. active (queue s) = [(t, AwaitingCreate i)])"

definition flowing :: "('ct, 'bt, 'lt) AsyncCart \<Rightarrow> bool" where
  "flowing s \<longleftrightarrow>
     list_all plain (waiting (queue s)) \<and>
     (active (queue s) = [] \<and> waiting (queue s) = [] \<or>
      (\<exists>t. active (queue s) = [(t, InFlight)] \<and> plain t))"

definition wellFormed :: "('ct, 'bt, 'lt) AsyncCart \<Rightarrow> bool" where
  "wellFormed s \<longleftrightarrow> concurrency (queue s) = 1 \<and> (stuck s \<or> flowing s)"

text \<open>
  The tasks in the queue, started ones first. The marks \<open>Started 0, Finished 0, \<dots>,
  Started (k - 1), Finished (k - 1)\<close>. A state is \<open>numbered\<close> when its marks are such an
  alternation followed by the marks of the started tasks, the tasks in the queue carry the
  numbers from \<open>k\<close> up to the number of calls made, and every resolved promise belongs to a
  call that was made.
\<close>

definition tasks :: "('ct, 'bt, 'lt) AsyncCart \<Rightarrow> ('ct, 'bt, 'lt) task list" where
  "tasks s = map fst (active (queue s)) @ waiting (queue s)"

definition alternation :: "nat \<Rightarrow> qevent list" where
  "alternation k = concat (map (\<lambda>i. [Started i, Finished i]) [0..<k])"

definition numbered :: "('ct, 'bt, 'lt) AsyncCart \<Rightarrow> bool" where
  "numbered s \<longleftrightarrow>
     (\<exists>k\<le>submitted s.
        trace s = alternation k @ map (\<lambda>(t, ph). Started (tid t)) (active (queue s)) \<and>
        map tid (tasks s) = [k..<submitted s]) \<and>
     list_all (\<lambda>(n, v). n < submitted s) (returned s)"

text \<open>
  What the serializer promises about the order of execution, as a check of the marks: the
  tasks are started in the order of their numbers, and a task is started only after the task
  before it has settled.
\<close>

fun serial :: "nat \<Rightarrow> qevent list \<Rightarrow> bool" where
  "serial k [] = True"
| "serial k [Started i] = (i = k)"
| "serial k (Started i # Finished j # es) = (i = k \<and> j = k \<and> serial (Suc k) es)"
| "serial k (Started i # Started j # es) = False"
| "serial k (Finished j # es) = False"

text \<open>An input that settles the provider call of the task with the given number.\<close>

fun settles :: "nat \<Rightarrow> ('ct, 'bt, 'lt) input \<Rightarrow> bool" where
  "settles n (Settle k out) = (k = n)"
| "settles n (Call opn) = False"

text \<open>The events dispatched between a state and a later one.\<close>

definition news :: "('ct, 'bt, 'lt) AsyncCart \<Rightarrow> ('ct, 'bt, 'lt) AsyncCart \<Rightarrow> 'ct event list" where
  "news s s' = drop (length (dispatched s)) (dispatched s')"

text \<open>
  \<open>grows P s s'\<close>: the state \<open>s'\<close> has dispatched the events of \<open>s\<close> and then some more, all
  of which satisfy \<open>P\<close>. An event is \<open>quiet\<close> unless it is a \<^verbatim>\<open>'change'\<close> that carries
  \<^verbatim>\<open>null\<close>.
\<close>

definition grows ::
  "('ct event \<Rightarrow> bool) \<Rightarrow> ('ct, 'bt, 'lt) AsyncCart \<Rightarrow> ('ct, 'bt, 'lt) AsyncCart \<Rightarrow> bool" where
  "grows P s s' \<longleftrightarrow> (\<exists>es. dispatched s' = dispatched s @ es \<and> list_all P es)"

definition quiet :: "'ct event \<Rightarrow> bool" where
  "quiet e \<longleftrightarrow> e \<noteq> CartEvent ''change'' None"

section \<open>Examples\<close>

text \<open>
  A provider whose carts are pairs of an identifier and a revision, with strings for buyers
  and line items, and the coordinator built on it.
\<close>

definition exampleConfig :: "(string \<times> string) ProviderConfig" where
  "exampleConfig = \<lparr>cartId = fst, cartRevisionId = snd\<rparr>"

definition fresh :: "bool \<Rightarrow> (string \<times> string, string, string) AsyncCart" where
  "fresh nf = init exampleConfig nf"

section \<open>What each part of the coordinator changes\<close>

text \<open>The fields each function leaves alone, and what it does to the others.\<close>

lemma submit_frame [simp]:
  "config (submit opn clr s) = config s"
  "cart (submit opn clr s) = cart s"
  "previousCartRevisionId (submit opn clr s) = previousCartRevisionId s"
  "calls (submit opn clr s) = calls s"
  "errors (submit opn clr s) = errors s"
  "returned (submit opn clr s) = returned s"
  "trace (submit opn clr s) = trace s"
  "status (submit opn clr s) = UPDATING"
  "submitted (submit opn clr s) = Suc (submitted s)"
  "dispatched (submit opn clr s) = dispatched s @ [CartStatusChangeEvent UPDATING]"
  "concurrency (queue (submit opn clr s)) = concurrency (queue s)"
  "notifyFirst (queue (submit opn clr s)) = notifyFirst (queue s)"
  "active (queue (submit opn clr s)) = active (queue s)"
  "waiting (queue (submit opn clr s)) = waiting (queue s) @
     [\<lparr>tid = submitted s, operation = opn, result = cart s,
       currentRevisionId = map_option (cartRevisionId (config s)) (cart s), caller = clr\<rparr>]"
  by (simp_all add: submit_def dispatchEvent_def Let_def)

lemma startFirst_frame [simp]:
  "config (startFirst s) = config s"
  "cart (startFirst s) = cart s"
  "previousCartRevisionId (startFirst s) = previousCartRevisionId s"
  "errors (startFirst s) = errors s"
  "returned (startFirst s) = returned s"
  "concurrency (queue (startFirst s)) = concurrency (queue s)"
  "notifyFirst (queue (startFirst s)) = notifyFirst (queue s)"
  by (simp_all add: startFirst_def invoke_def Let_def
        split: list.splits operation.splits option.splits prod.splits)

lemma pump_frame [simp]:
  "config (pump s) = config s"
  "cart (pump s) = cart s"
  "previousCartRevisionId (pump s) = previousCartRevisionId s"
  "errors (pump s) = errors s"
  "returned (pump s) = returned s"
  "concurrency (queue (pump s)) = concurrency (queue s)"
  "notifyFirst (queue (pump s)) = notifyFirst (queue s)"
  by (induction s rule: pump.induct, subst pump.simps, simp)+

lemma pump_one:
  assumes "concurrency (queue s) = 1"
  shows "pump s = (if waiting (queue s) \<noteq> [] \<and> active (queue s) = [] then startFirst s else s)"
proof (cases "waiting (queue s) \<noteq> [] \<and> active (queue s) = []")
  case True
  then have "length (active (queue (startFirst s))) = 1"
    by (auto simp: startFirst_def invoke_def Let_def
        split: list.splits operation.splits option.splits prod.splits)
  then have "pump (startFirst s) = startFirst s"
    using assms by (subst pump.simps) simp
  then show ?thesis using True assms by (subst pump.simps) simp
next
  case False
  then show ?thesis using assms by (subst pump.simps) auto
qed

lemma onIdle_frame [simp]:
  "config (onIdle s) = config s"
  "cart (onIdle s) = cart s"
  "status (onIdle s) = status s"
  "previousCartRevisionId (onIdle s) = previousCartRevisionId s"
  "calls (onIdle s) = calls s"
  "errors (onIdle s) = errors s"
  "returned (onIdle s) = returned s"
  "submitted (onIdle s) = submitted s"
  "trace (onIdle s) = trace s"
  "queue (onIdle s) = queue s"
  by (simp_all add: onIdle_def dispatchEvent_def Let_def split: option.splits)

lemma complete_frame [simp]:
  "config (complete t out s) = config s"
  "status (complete t out s) = READY"
  "calls (complete t out s) = calls s"
  "returned (complete t out s) = returned s"
  "submitted (complete t out s) = submitted s"
  "trace (complete t out s) = trace s"
  "queue (complete t out s) = queue s"
  "dispatched (complete t out s) = dispatched s @ [CartStatusChangeEvent READY]"
  by (simp_all add: complete_def dispatchEvent_def Let_def split: sum.splits)

lemma toCaller_frame [simp]:
  "config (toCaller t r s) = config s"
  "status (toCaller t r s) = status s"
  "cart (toCaller t r s) = cart s"
  "previousCartRevisionId (toCaller t r s) = previousCartRevisionId s"
  "calls (toCaller t r s) = calls s"
  "errors (toCaller t r s) = errors s"
  "dispatched (toCaller t r s) = dispatched s"
  "submitted (toCaller t r s) = submitted s"
  "trace (toCaller t r s) = trace s"
  "queue (toCaller t r s) = queue s"
  by (simp_all add: toCaller_def split: caller.splits)

lemma leave_frame [simp]:
  "config (leave t s) = config s"
  "cart (leave t s) = cart s"
  "previousCartRevisionId (leave t s) = previousCartRevisionId s"
  "errors (leave t s) = errors s"
  "returned (leave t s) = returned s"
  "concurrency (queue (leave t s)) = concurrency (queue s)"
  "notifyFirst (queue (leave t s)) = notifyFirst (queue s)"
  by (simp_all add: leave_def Let_def)

section \<open>Well-formed states are preserved\<close>

text \<open>
  With concurrency 1 the queue is always stuck or flowing, so a settlement only ever
  concerns the one task in flight, and that task was queued by a public method.
\<close>

lemma deliver_plain: "\<not> fromClosure (caller t) \<Longrightarrow> deliver t = toCaller t"
  by (cases "caller t") (auto simp: deliver_def fun_eq_iff)

lemma startFirst_queue:
  assumes "waiting (queue s) = t # ts" "active (queue s) = []"
  shows "active (queue (startFirst s)) =
           [(t, case operation t of Mutate m \<Rightarrow> (case cart s of None \<Rightarrow> AwaitingCreate (submitted s) | Some c \<Rightarrow> InFlight) | _ \<Rightarrow> InFlight)]"
    and "(\<exists>m. operation t = Mutate m) \<and> cart s = None \<or>
         waiting (queue (startFirst s)) = ts"
  using assms
  by (auto simp: startFirst_def invoke_def Let_def
        split: list.splits operation.splits option.splits prod.splits)

lemma wellFormed_startFirst:
  assumes "concurrency (queue s) = 1" "waiting (queue s) \<noteq> []" "active (queue s) = []"
    "list_all plain (waiting (queue s))"
  shows "wellFormed (startFirst s)"
proof -
  obtain t ts where w: "waiting (queue s) = t # ts" using assms(2) by (cases "waiting (queue s)") auto
  show ?thesis
    using startFirst_queue[OF w assms(3)] assms(1,4) w
    by (auto simp: wellFormed_def stuck_def flowing_def split: operation.splits option.splits)
qed

lemma wellFormed_pump:
  assumes "concurrency (queue s) = 1" "list_all plain (waiting (queue s))"
    "active (queue s) = [] \<or> stuck s \<or> (\<exists>t. active (queue s) = [(t, InFlight)] \<and> plain t)"
  shows "wellFormed (pump s)"
proof (cases "waiting (queue s) \<noteq> [] \<and> active (queue s) = []")
  case True
  then show ?thesis using assms wellFormed_startFirst[of s] by (simp add: pump_one)
next
  case False
  then show ?thesis using assms by (auto simp: pump_one wellFormed_def flowing_def stuck_def)
qed

lemma wellFormed_runCartOperation:
  assumes "wellFormed s" "plain \<lparr>tid = submitted s, operation = opn, result = cart s,
       currentRevisionId = map_option (cartRevisionId (config s)) (cart s), caller = clr\<rparr>"
  shows "wellFormed (runCartOperation opn clr s)"
proof (cases "stuck s")
  case True
  then show ?thesis using assms
    by (auto simp: runCartOperation_def pump_one wellFormed_def stuck_def)
next
  case False
  then have "flowing s" using assms by (simp add: wellFormed_def)
  then show ?thesis using assms unfolding runCartOperation_def
    by (intro wellFormed_pump) (auto simp: wellFormed_def flowing_def)
qed

lemma wellFormed_callMethod: "wellFormed s \<Longrightarrow> wellFormed (callMethod opn s)"
proof (induction opn rule: callMethod.induct)
  case (1 i)
  have "wellFormed (runCartOperation (Fetch i) Discarded s)"
    using 1 by (intro wellFormed_runCartOperation) (auto simp: plain_def)
  then show ?case by (simp add: fetch_def Let_def wellFormed_def stuck_def flowing_def)
qed (auto simp: create_def updateBuyer_def updateDiscountCodes_def updateAttributes_def
       addLineItems_def updateLineItems_def removeLineItems_def plain_def
       intro!: wellFormed_runCartOperation)

lemma find_inflight:
  assumes "wellFormed s"
  shows "List.find (\<lambda>(t, ph). tid t = n \<and> ph = InFlight) (active (queue s)) = Some (t, ph) \<longleftrightarrow>
         active (queue s) = [(t, InFlight)] \<and> tid t = n \<and> ph = InFlight"
  using assms by (auto simp: wellFormed_def stuck_def flowing_def split: if_splits)

lemma wellFormed_queue_cong:
  "queue s' = queue s \<Longrightarrow> wellFormed s' = wellFormed s"
  by (simp add: wellFormed_def stuck_def flowing_def)

lemma wellFormed_onIdle: "wellFormed (onIdle s) = wellFormed s"
  by (rule wellFormed_queue_cong) simp

lemma wellFormed_complete: "wellFormed (complete t out s) = wellFormed s"
  by (rule wellFormed_queue_cong) simp

lemma wellFormed_toCaller: "wellFormed (toCaller t r s) = wellFormed s"
  by (rule wellFormed_queue_cong) simp

lemma wellFormed_leave:
  assumes "wellFormed s" "active (queue s) = [(t, InFlight)]"
  shows "wellFormed (leave t s)"
proof -
  let ?s1 = "s\<lparr>queue := (queue s)\<lparr>active := filter (\<lambda>(u, ph). tid u \<noteq> tid t) (active (queue s))\<rparr>,
                 trace := trace s @ [Finished (tid t)]\<rparr>"
  have "wellFormed (pump ?s1)"
    using assms by (intro wellFormed_pump) (auto simp: wellFormed_def stuck_def flowing_def)
  then show ?thesis
    unfolding leave_def Let_def by (simp add: wellFormed_onIdle)
qed

lemma settle_plain:
  assumes "wellFormed s" "active (queue s) = [(t, InFlight)]"
  shows "settle t out s =
     (if notifyFirst (queue s)
      then toCaller t (returnValue t out) (complete t out (leave t s))
      else leave t (toCaller t (returnValue t out) (complete t out s)))"
proof -
  have "plain t" using assms by (auto simp: wellFormed_def stuck_def flowing_def)
  then show ?thesis by (simp add: settle_def settleWith_def deliver_plain plain_def)
qed

lemma wellFormed_step: "wellFormed s \<Longrightarrow> wellFormed (step s i)"
proof (cases i)
  case (Call opn)
  assume "wellFormed s"
  then show ?thesis using Call by (simp add: wellFormed_callMethod)
next
  case (Settle n out)
  assume wf: "wellFormed s"
  show ?thesis
  proof (cases "List.find (\<lambda>(t, ph). tid t = n \<and> ph = InFlight) (active (queue s))")
    case None
    then show ?thesis using Settle wf by simp
  next
    case (Some a)
    obtain t ph where a: "a = (t, ph)" by (cases a)
    have act: "active (queue s) = [(t, InFlight)]"
      using Some a find_inflight[OF wf, of n t ph] by simp
    have 1: "wellFormed (leave t s)" using wf act by (rule wellFormed_leave)
    have 2: "wellFormed (toCaller t (returnValue t out) (complete t out s))"
      using wf by (simp add: wellFormed_toCaller wellFormed_complete)
    have 3: "active (queue (toCaller t (returnValue t out) (complete t out s))) = [(t, InFlight)]"
      using act by simp
    have "wellFormed (settle t out s)"
      using 1 wellFormed_leave[OF 2 3]
      by (simp add: settle_plain[OF wf act] wellFormed_toCaller wellFormed_complete)
    then show ?thesis using Settle Some a by simp
  qed
qed

lemma wellFormed_init: "wellFormed (init cfg nf)"
  by (simp add: wellFormed_def init_def flowing_def)

lemma wellFormed_run: "wellFormed s \<Longrightarrow> wellFormed (run s ins)"
  unfolding run_def by (induction ins arbitrary: s) (simp_all add: wellFormed_step)

lemma run_snoc: "run s (ins @ [i]) = step (run s ins) i"
  by (simp add: run_def)

lemma run_Cons: "run s (i # ins) = run (step s i) ins"
  by (simp add: run_def)

section \<open>The numbering of the tasks\<close>

lemma startFirst_plainly:
  assumes "waiting (queue s) = t # ts"
    and "\<not> ((\<exists>m. operation t = Mutate m) \<and> cart s = None)"
  shows "waiting (queue (startFirst s)) = ts"
    "active (queue (startFirst s)) = active (queue s) @ [(t, InFlight)]"
    "trace (startFirst s) = trace s @ [Started (tid t)]"
    "submitted (startFirst s) = submitted s"
    "status (startFirst s) = status s"
    "dispatched (startFirst s) = dispatched s"
  using assms
  by (auto simp: startFirst_def invoke_def Let_def
        split: list.splits operation.splits option.splits prod.splits)

lemma startFirst_nested:
  assumes "waiting (queue s) = t # ts"
    and "(\<exists>m. operation t = Mutate m) \<and> cart s = None"
  shows "waiting (queue (startFirst s)) = ts @
           [\<lparr>tid = submitted s, operation = Create emptyInput, result = None,
             currentRevisionId = None, caller = Closure (tid t)\<rparr>]"
    "active (queue (startFirst s)) = active (queue s) @ [(t, AwaitingCreate (submitted s))]"
    "trace (startFirst s) = trace s @ [Started (tid t)]"
    "submitted (startFirst s) = Suc (submitted s)"
    "status (startFirst s) = UPDATING"
    "dispatched (startFirst s) = dispatched s @ [CartStatusChangeEvent UPDATING]"
    "calls (startFirst s) = calls s"
  using assms
  by (auto simp: startFirst_def invoke_def Let_def
        split: list.splits operation.splits option.splits prod.splits)

lemma upt_Cons_eq: "map f xs = [k..<n] \<Longrightarrow> xs = t # ts \<Longrightarrow> f t = k \<and> map f ts = [Suc k..<n] \<and> k < n"
  by (cases "k < n") (auto simp: upt_conv_Cons)

lemma numbered_startFirst:
  assumes "numbered s" "waiting (queue s) \<noteq> []" "active (queue s) = []"
  shows "numbered (startFirst s)"
proof -
  obtain t ts where w: "waiting (queue s) = t # ts" using assms(2) by (cases "waiting (queue s)") auto
  obtain k where k: "k \<le> submitted s" "trace s = alternation k" "map tid (t # ts) = [k..<submitted s]"
    and r: "list_all (\<lambda>(n, v). n < submitted s) (returned s)"
    using assms(1,3) w by (auto simp: numbered_def tasks_def)
  show ?thesis
  proof (cases "(\<exists>m. operation t = Mutate m) \<and> cart s = None")
    case True
    have "map tid (t # ts) @ [submitted s] = [k..<Suc (submitted s)]"
      using k by simp
    then show ?thesis
      using startFirst_nested[OF w True] k r assms(3)
      unfolding numbered_def tasks_def
      by (auto intro!: exI[of _ k] elim!: list.pred_mono_strong)
  next
    case False
    show ?thesis
      using startFirst_plainly[OF w False] k r assms(3)
      unfolding numbered_def tasks_def
      by (auto intro!: exI[of _ k])
  qed
qed

lemma submitted_startFirst: "submitted s \<le> submitted (startFirst s)"
  by (auto simp: startFirst_def invoke_def Let_def
        split: list.splits operation.splits option.splits prod.splits)

lemma submitted_pump: "submitted s \<le> submitted (pump s)"
proof (induction s rule: pump.induct)
  case (1 s)
  show ?case using 1 submitted_startFirst[of s] by (subst pump.simps) auto
qed

lemma numbered_pump:
  assumes "concurrency (queue s) = 1" "numbered s"
  shows "numbered (pump s)"
  using assms by (simp add: pump_one numbered_startFirst)

lemma numbered_submit: "numbered s \<Longrightarrow> numbered (submit opn clr s)"
  unfolding numbered_def tasks_def
  by (auto elim!: list.pred_mono_strong intro: le_SucI)

lemma numbered_runCartOperation:
  "concurrency (queue s) = 1 \<Longrightarrow> numbered s \<Longrightarrow> numbered (runCartOperation opn clr s)"
  by (simp add: runCartOperation_def numbered_pump numbered_submit)

lemma submitted_runCartOperation: "submitted s < submitted (runCartOperation opn clr s)"
  using submitted_pump[of "submit opn clr s"] by (simp add: runCartOperation_def)

lemma numbered_callMethod:
  assumes "concurrency (queue s) = 1" "numbered s"
  shows "numbered (callMethod opn s)"
proof (induction opn rule: callMethod.induct)
  case (1 i)
  have "numbered (runCartOperation (Fetch i) Discarded s)"
    using assms by (rule numbered_runCartOperation)
  then show ?case
    using submitted_runCartOperation[of s "Fetch i" Discarded]
    by (simp add: fetch_def Let_def numbered_def tasks_def)
qed (simp_all add: create_def updateBuyer_def updateDiscountCodes_def updateAttributes_def
       addLineItems_def updateLineItems_def removeLineItems_def assms numbered_runCartOperation)

lemma alternation_Suc: "alternation (Suc k) = alternation k @ [Started k, Finished k]"
  by (simp add: alternation_def)

lemma numbered_onIdle: "numbered (onIdle s) = numbered s"
  by (simp add: numbered_def tasks_def)

lemma numbered_complete: "numbered (complete t out s) = numbered s"
  by (simp add: numbered_def tasks_def)

lemma numbered_toCaller:
  "numbered s \<Longrightarrow> tid t < submitted s \<Longrightarrow> numbered (toCaller t r s)"
  by (cases "caller t") (simp_all add: numbered_def tasks_def toCaller_def)

lemma numberedI:
  assumes "k \<le> submitted s"
    "trace s = alternation k @ map (\<lambda>(t, ph). Started (tid t)) (active (queue s))"
    "map tid (tasks s) = [k..<submitted s]"
    "list_all (\<lambda>(n, v). n < submitted s) (returned s)"
  shows "numbered s"
  unfolding numbered_def using assms by blast

lemma numbered_head:
  assumes "numbered s" "active (queue s) = [(t, ph)]"
  shows "tid t < submitted s"
proof -
  obtain k where "map tid (tasks s) = [k..<submitted s]"
    using assms(1) unfolding numbered_def by blast
  moreover have "tasks s = t # waiting (queue s)" using assms(2) by (simp add: tasks_def)
  ultimately show ?thesis using upt_Cons_eq[of tid "tasks s" k "submitted s" t] by blast
qed

lemma numbered_leave:
  assumes "concurrency (queue s) = 1" "numbered s" "active (queue s) = [(t, ph)]"
  shows "numbered (leave t s)"
proof -
  let ?s1 = "s\<lparr>queue := (queue s)\<lparr>active := filter (\<lambda>(u, ph). tid u \<noteq> tid t) (active (queue s))\<rparr>,
                 trace := trace s @ [Finished (tid t)]\<rparr>"
  obtain k where k: "k \<le> submitted s"
      "trace s = alternation k @ map (\<lambda>(t, ph). Started (tid t)) (active (queue s))"
      "map tid (tasks s) = [k..<submitted s]"
    and r: "list_all (\<lambda>(n, v). n < submitted s) (returned s)"
    using assms(2) unfolding numbered_def by blast
  have ts: "tasks s = t # waiting (queue s)" using assms(3) by (simp add: tasks_def)
  have h: "tid t = k" "map tid (waiting (queue s)) = [Suc k..<submitted s]" "k < submitted s"
    using upt_Cons_eq[OF k(3) ts] by blast+
  have tr: "trace ?s1 = alternation (Suc k)"
    using k(2) h(1) assms(3) by (simp add: alternation_Suc)
  have "active (queue ?s1) = []" using assms(3) by simp
  then have "tasks ?s1 = waiting (queue s)" by (simp add: tasks_def)
  then have "numbered ?s1"
    using tr h r assms(3) by (intro numberedI[of "Suc k"]) simp_all
  then have "numbered (pump ?s1)" using assms(1) by (intro numbered_pump) simp_all
  then show ?thesis unfolding leave_def Let_def by (simp add: numbered_onIdle)
qed

lemma submitted_leave: "submitted s \<le> submitted (leave t s)"
proof -
  let ?s1 = "s\<lparr>queue := (queue s)\<lparr>active := filter (\<lambda>(u, ph). tid u \<noteq> tid t) (active (queue s))\<rparr>,
                 trace := trace s @ [Finished (tid t)]\<rparr>"
  show ?thesis
    using submitted_pump[of ?s1] unfolding leave_def Let_def by simp
qed

lemma numbered_step:
  assumes wf: "wellFormed s" and nu: "numbered s"
  shows "numbered (step s i)"
proof (cases i)
  case (Call opn)
  then show ?thesis using wf nu by (simp add: numbered_callMethod wellFormed_def)
next
  case (Settle n out)
  show ?thesis
  proof (cases "List.find (\<lambda>(t, ph). tid t = n \<and> ph = InFlight) (active (queue s))")
    case None
    then show ?thesis using Settle nu by simp
  next
    case (Some a)
    obtain t ph where a: "a = (t, ph)" by (cases a)
    have act: "active (queue s) = [(t, InFlight)]"
      using Some a find_inflight[OF wf, of n t ph] by simp
    have c1: "concurrency (queue s) = 1" using wf by (simp add: wellFormed_def)
    have lt: "tid t < submitted s" using nu act by (rule numbered_head)
    have 1: "numbered (toCaller t (returnValue t out) (complete t out (leave t s)))"
      using numbered_leave[OF c1 nu act] lt submitted_leave[of s t]
      by (intro numbered_toCaller) (simp_all add: numbered_complete)
    have "numbered (toCaller t (returnValue t out) (complete t out s))"
      using nu lt by (intro numbered_toCaller) (simp_all add: numbered_complete)
    then have 2: "numbered (leave t (toCaller t (returnValue t out) (complete t out s)))"
      using c1 act by (intro numbered_leave[where ph = InFlight]) simp_all
    show ?thesis using Settle Some a 1 2 by (simp add: settle_plain[OF wf act])
  qed
qed

lemma numbered_init: "numbered (init cfg nf)"
  by (simp add: numbered_def init_def tasks_def alternation_def)

lemma reachable_invariants:
  "wellFormed (run (init cfg nf) ins) \<and> numbered (run (init cfg nf) ins)"
proof (induction ins rule: rev_induct)
  case Nil
  show ?case by (simp add: run_def wellFormed_init numbered_init)
next
  case (snoc i ins)
  then show ?case by (simp add: run_snoc wellFormed_step numbered_step)
qed

lemma serial_alternation:
  "serial k (concat (map (\<lambda>i. [Started i, Finished i]) [k..<n]) @ es) = (if k < n then serial n es else serial k es)"
proof (induction "n - k" arbitrary: k)
  case 0
  then show ?case by simp
next
  case (Suc d)
  then have "k < n" by simp
  then have eq: "[k..<n] = k # [Suc k..<n]" by (simp add: upt_conv_Cons)
  show ?case
  proof (cases "Suc k < n")
    case True
    then show ?thesis using Suc(1)[of "Suc k"] Suc(2) \<open>k < n\<close> eq by simp
  next
    case False
    then have "n = Suc k" using \<open>k < n\<close> by simp
    then show ?thesis by simp
  qed
qed

lemma serial_numbered:
  assumes "numbered s" "length (active (queue s)) \<le> 1"
  shows "serial 0 (trace s)"
proof -
  obtain k where k: "trace s = alternation k @ map (\<lambda>(t, ph). Started (tid t)) (active (queue s))"
    "map tid (tasks s) = [k..<submitted s]"
    using assms(1) unfolding numbered_def by blast
  show ?thesis
  proof (cases "active (queue s)")
    case Nil
    then have "trace s = alternation k" using k(1) by simp
    then show ?thesis using serial_alternation[of 0 k "[]"] by (simp add: alternation_def)
  next
    case (Cons a as)
    then have as: "as = []" using assms(2) by simp
    obtain t ph where a: "a = (t, ph)" by (cases a)
    have ts: "tasks s = t # waiting (queue s)" using Cons a as by (simp add: tasks_def)
    have "tid t = k" using upt_Cons_eq[OF k(2) ts] by blast
    then have "trace s = alternation k @ [Started k]" using k(1) Cons a as by simp
    then show ?thesis using serial_alternation[of 0 k "[Started k]"]
      by (simp add: alternation_def)
  qed
qed

section \<open>A queue whose task waits for a nested create\<close>

text \<open>
  While a task is started, a call only appends to the queue. If the started task waits for
  a nested \<^verbatim>\<open>create\<close>, no settlement applies either: the state of the queue never changes
  again.
\<close>

lemma runCartOperation_busy:
  "concurrency (queue s) = 1 \<Longrightarrow> active (queue s) \<noteq> [] \<Longrightarrow>
   runCartOperation opn clr s = submit opn clr s"
  by (simp add: runCartOperation_def pump_one)

lemma callMethod_busy:
  assumes "concurrency (queue s) = 1" "active (queue s) \<noteq> []"
  shows "callMethod opn s =
     (if isFetch opn
      then (submit opn Discarded s)\<lparr>returned := returned s @ [(submitted s, Undefined)]\<rparr>
      else submit opn Caller s)"
  using assms
  by (induction opn rule: callMethod.induct)
     (simp_all add: fetch_def create_def updateBuyer_def updateDiscountCodes_def
        updateAttributes_def addLineItems_def updateLineItems_def removeLineItems_def
        runCartOperation_busy Let_def)

lemma callMethod_Mutate:
  "callMethod (Mutate m) s = runCartOperation (Mutate m) Caller s"
  by (cases m)
     (simp_all add: updateBuyer_def updateDiscountCodes_def
        updateAttributes_def addLineItems_def updateLineItems_def removeLineItems_def)

lemma stuck_step:
  assumes "concurrency (queue s) = 1" "active (queue s) = [(t, AwaitingCreate j)]"
  shows "concurrency (queue (step s i)) = 1 \<and>
         active (queue (step s i)) = [(t, AwaitingCreate j)] \<and>
         calls (step s i) = calls s \<and>
         submitted s \<le> submitted (step s i) \<and>
         (returned (step s i) = returned s \<or>
          returned (step s i) = returned s @ [(submitted s, Undefined)])"
proof (cases i)
  case (Call opn)
  then show ?thesis using assms by (simp add: callMethod_busy)
next
  case (Settle n out)
  then show ?thesis using assms by simp
qed

lemma stuck_run:
  assumes "concurrency (queue s) = 1" "active (queue s) = [(t, AwaitingCreate j)]"
    "n < submitted s" "list_all (\<lambda>(k, v). k \<noteq> n) (returned s)"
  shows "active (queue (run s ins)) = [(t, AwaitingCreate j)] \<and>
         calls (run s ins) = calls s \<and>
         list_all (\<lambda>(k, v). k \<noteq> n) (returned (run s ins))"
  using assms
proof (induction ins arbitrary: s)
  case Nil
  then show ?case by (simp add: run_def)
next
  case (Cons i ins)
  have st: "concurrency (queue (step s i)) = 1"
    "active (queue (step s i)) = [(t, AwaitingCreate j)]"
    "calls (step s i) = calls s" "submitted s \<le> submitted (step s i)"
    "returned (step s i) = returned s \<or>
     returned (step s i) = returned s @ [(submitted s, Undefined)]"
    using stuck_step[OF Cons.prems(1,2), of i] by simp_all
  have "list_all (\<lambda>(k, v). k \<noteq> n) (returned (step s i))"
    using st(5) Cons.prems(3,4) by auto
  then show ?case
    using Cons.IH[of "step s i"] st Cons.prems(3) by (simp add: run_Cons)
qed

lemma call_without_cart:
  assumes "concurrency (queue s) = 1" "active (queue s) = []" "waiting (queue s) = []"
    "cart s = None"
  shows "active (queue (callMethod (Mutate m) s)) =
           [(\<lparr>tid = submitted s, operation = Mutate m, result = None,
              currentRevisionId = None, caller = Caller\<rparr>,
             AwaitingCreate (Suc (submitted s)))]"
    "calls (callMethod (Mutate m) s) = calls s"
    "returned (callMethod (Mutate m) s) = returned s"
    "submitted (callMethod (Mutate m) s) = Suc (Suc (submitted s))"
    "concurrency (queue (callMethod (Mutate m) s)) = 1"
proof -
  let ?t = "\<lparr>tid = submitted s, operation = Mutate m, result = None,
              currentRevisionId = None, caller = Caller\<rparr>"
  let ?s1 = "submit (Mutate m) Caller s"
  have w: "waiting (queue ?s1) = ?t # []" using assms by simp
  have n: "(\<exists>m'. operation ?t = Mutate m') \<and> cart ?s1 = None" using assms by simp
  have eq: "callMethod (Mutate m) s = startFirst ?s1"
    using assms by (simp add: callMethod_Mutate runCartOperation_def pump_one)
  show "active (queue (callMethod (Mutate m) s)) = [(?t, AwaitingCreate (Suc (submitted s)))]"
    "calls (callMethod (Mutate m) s) = calls s"
    "returned (callMethod (Mutate m) s) = returned s"
    "submitted (callMethod (Mutate m) s) = Suc (Suc (submitted s))"
    "concurrency (queue (callMethod (Mutate m) s)) = 1"
    using startFirst_nested[OF w n] assms by (simp_all add: eq)
qed

section \<open>The effect of a settlement\<close>

lemma complete_effect:
  "cart (complete t out s) = (case out of Inr v \<Rightarrow> Some v | Inl e \<Rightarrow> cart s)"
  "errors (complete t out s) = (case out of Inr v \<Rightarrow> errors s | Inl e \<Rightarrow> errors s @ [e])"
  "previousCartRevisionId (complete t out s) =
     (case out of
        Inr v \<Rightarrow> if Some (cartRevisionId (config s) v) \<noteq> currentRevisionId t
                 then currentRevisionId t else previousCartRevisionId s
      | Inl e \<Rightarrow> previousCartRevisionId s)"
  by (simp_all add: complete_def dispatchEvent_def Let_def split: sum.splits)

lemma toCaller_returned:
  "returned (toCaller t r s) =
     returned s @ (if caller t = Caller then [(tid t, Snapshot r)] else [])"
  by (cases "caller t") (simp_all add: toCaller_def)

lemma onIdle_dispatched:
  "dispatched (onIdle s) =
     dispatched s @ CartEvent ''idle'' (cart s) #
       (if \<exists>c. cart s = Some c \<and> Some (cartRevisionId (config s) c) \<noteq> previousCartRevisionId s
        then [CartEvent ''change'' (cart s)] else [])"
  by (auto simp: onIdle_def dispatchEvent_def Let_def split: option.splits)

text \<open>Every part of the coordinator only adds events, and only quiet ones.\<close>

lemma grows_refl: "grows P s s"
  by (simp add: grows_def)

lemma grows_trans: "grows P s a \<Longrightarrow> grows P a b \<Longrightarrow> grows P s b"
  by (auto simp: grows_def)

lemma grows_same: "dispatched b = dispatched a \<Longrightarrow> grows P s a \<Longrightarrow> grows P s b"
  by (simp add: grows_def)

lemma grows_step: "dispatched b = dispatched a @ [e] \<Longrightarrow> P e \<Longrightarrow> grows P s a \<Longrightarrow> grows P s b"
  by (auto simp: grows_def)

lemma grows_submit: "grows quiet s (submit opn clr s)"
  by (simp add: grows_def quiet_def)

lemma grows_startFirst: "grows quiet s (startFirst s)"
  by (auto simp: grows_def quiet_def startFirst_def invoke_def submit_def dispatchEvent_def Let_def
        split: list.splits operation.splits option.splits prod.splits)

lemma grows_pump: "grows quiet s (pump s)"
proof (induction s rule: pump.induct)
  case (1 s)
  show ?case
    using 1 grows_startFirst[of s] by (subst pump.simps) (auto intro: grows_trans grows_refl)
qed

lemma grows_onIdle: "grows quiet s (onIdle s)"
  by (auto simp: grows_def quiet_def onIdle_dispatched)

lemma grows_leave: "grows quiet s (leave t s)"
proof -
  let ?s1 = "s\<lparr>queue := (queue s)\<lparr>active := filter (\<lambda>(u, ph). tid u \<noteq> tid t) (active (queue s))\<rparr>,
                 trace := trace s @ [Finished (tid t)]\<rparr>"
  have "grows quiet s ?s1" by (simp add: grows_def)
  then have "grows quiet s (pump ?s1)" using grows_pump[of ?s1] by (rule grows_trans)
  then show ?thesis
    unfolding leave_def Let_def using grows_onIdle[of "pump ?s1"]
    by (auto intro: grows_trans)
qed

lemma grows_complete: "grows quiet s (complete t out s)"
  by (simp add: grows_def quiet_def)

lemma grows_toCaller: "grows P s (toCaller t r s)"
  by (simp add: grows_def)

lemma grows_runCartOperation: "grows quiet s (runCartOperation opn clr s)"
  unfolding runCartOperation_def
  using grows_submit grows_pump by (rule grows_trans)

lemma callMethod_cases:
  "callMethod opn s =
     (if isFetch opn
      then (runCartOperation opn Discarded s)\<lparr>returned :=
              returned (runCartOperation opn Discarded s) @ [(submitted s, Undefined)]\<rparr>
      else runCartOperation opn Caller s)"
  by (induction opn rule: callMethod.induct)
     (simp_all add: fetch_def create_def updateBuyer_def updateDiscountCodes_def
        updateAttributes_def addLineItems_def updateLineItems_def removeLineItems_def Let_def)

lemma grows_callMethod: "grows quiet s (callMethod opn s)"
  using grows_runCartOperation[of s opn]
  by (auto simp: callMethod_cases grows_def)

lemma grows_settle:
  assumes "wellFormed s" "active (queue s) = [(t, InFlight)]"
  shows "grows quiet s (settle t out s)"
proof (cases "notifyFirst (queue s)")
  case True
  have "grows quiet s (complete t out (leave t s))"
    using grows_leave grows_complete by (rule grows_trans)
  then have "grows quiet s (toCaller t (returnValue t out) (complete t out (leave t s)))"
    by (rule grows_same[rotated]) simp
  then show ?thesis using True by (simp add: settle_plain[OF assms])
next
  case False
  have "grows quiet s (toCaller t (returnValue t out) (complete t out s))"
    using grows_complete by (rule grows_same[rotated]) simp
  then have "grows quiet s (leave t (toCaller t (returnValue t out) (complete t out s)))"
    using grows_leave by (rule grows_trans)
  then show ?thesis using False by (simp add: settle_plain[OF assms])
qed

lemma step_Settle_cases:
  assumes "wellFormed s"
  shows "(\<exists>t. active (queue s) = [(t, InFlight)] \<and> tid t = n \<and> step s (Settle n out) = settle t out s)
         \<or> (step s (Settle n out) = s \<and> \<not> (\<exists>t. (t, InFlight) \<in> set (active (queue s)) \<and> tid t = n))"
proof (cases "List.find (\<lambda>(t, ph). tid t = n \<and> ph = InFlight) (active (queue s))")
  case None
  then have "step s (Settle n out) = s" by simp
  moreover have "\<not> (\<exists>t. (t, InFlight) \<in> set (active (queue s)) \<and> tid t = n)"
    using None by (auto simp: find_None_iff)
  ultimately show ?thesis by blast
next
  case (Some a)
  obtain t ph where a: "a = (t, ph)" by (cases a)
  have "active (queue s) = [(t, InFlight)] \<and> tid t = n"
    using Some a find_inflight[OF assms, of n t ph] by simp
  moreover have "step s (Settle n out) = settle t out s" using Some a by simp
  ultimately show ?thesis by blast
qed

lemma grows_stepW: "wellFormed s \<Longrightarrow> grows quiet s (step s i)"
proof (cases i)
  case (Call opn)
  then show ?thesis by (simp add: grows_callMethod)
next
  case (Settle n out)
  assume "wellFormed s"
  then show ?thesis
    using step_Settle_cases[of s n out] Settle
    by (auto simp: grows_settle grows_refl)
qed

lemma grows_run: "wellFormed s \<Longrightarrow> grows quiet s (run s ins)"
proof (induction ins rule: rev_induct)
  case Nil
  then show ?case by (simp add: run_def grows_refl)
next
  case (snoc i ins)
  then have "wellFormed (run s ins)" by (simp add: wellFormed_run)
  then have "grows quiet (run s ins) (step (run s ins) i)" by (rule grows_stepW)
  then show ?case using snoc by (auto simp: run_snoc intro: grows_trans)
qed

lemma inflight_only:
  assumes "wellFormed s" "(t, InFlight) \<in> set (active (queue s))"
  shows "active (queue s) = [(t, InFlight)]"
  using assms by (auto simp: wellFormed_def stuck_def flowing_def)

lemma step_inflight:
  assumes "wellFormed s" "(t, InFlight) \<in> set (active (queue s))"
  shows "step s (Settle (tid t) out) = settle t out s"
  using inflight_only[OF assms] by simp

lemma pump_nothing_waiting: "waiting (queue s) = [] \<Longrightarrow> pump s = s"
  by (subst pump.simps) simp

lemma leave_drained:
  assumes "waiting (queue s) = []" "active (queue s) = [(t, ph)]"
  shows "leave t s =
     onIdle (s\<lparr>queue := (queue s)\<lparr>active := []\<rparr>, trace := trace s @ [Finished (tid t)]\<rparr>)"
  using assms by (simp add: leave_def Let_def pump_nothing_waiting)

lemma growsD: "grows P s s' \<Longrightarrow> \<exists>es. dispatched s' = dispatched s @ es"
  by (auto simp: grows_def)

lemma settle_effect:
  assumes wf: "wellFormed s" and act: "active (queue s) = [(t, InFlight)]"
  shows "errors (settle t out s) = (case out of Inr v \<Rightarrow> errors s | Inl e \<Rightarrow> errors s @ [e])"
    and "cart (settle t out s) = (case out of Inr v \<Rightarrow> Some v | Inl e \<Rightarrow> cart s)"
    and "returned (settle t out s) =
           returned s @ (if caller t = Caller then [(tid t, Snapshot (returnValue t out))] else [])"
    and "\<exists>es es'. dispatched (settle t out s) = dispatched s @ es @ CartStatusChangeEvent READY # es'"
    and "notifyFirst (queue s) \<or> waiting (queue s) = [] \<Longrightarrow> status (settle t out s) = READY"
    and "waiting (queue s) = [] \<Longrightarrow>
           \<exists>es es'. dispatched (settle t out s) =
              dispatched s @ es @
              CartEvent ''idle'' (if notifyFirst (queue s) then cart s else cart (settle t out s)) # es'"
proof -
  let ?r = "returnValue t out"
  let ?x = "toCaller t ?r (complete t out s)"
  let ?y = "toCaller t ?r (complete t out (leave t s))"
  have eq: "settle t out s = (if notifyFirst (queue s) then ?y else leave t ?x)"
    by (simp add: settle_plain[OF wf act])
  show "errors (settle t out s) = (case out of Inr v \<Rightarrow> errors s | Inl e \<Rightarrow> errors s @ [e])"
    by (simp add: eq complete_effect split: sum.splits)
  show c: "cart (settle t out s) = (case out of Inr v \<Rightarrow> Some v | Inl e \<Rightarrow> cart s)"
    by (simp add: eq complete_effect split: sum.splits)
  show "returned (settle t out s) =
           returned s @ (if caller t = Caller then [(tid t, Snapshot (returnValue t out))] else [])"
    by (simp add: eq toCaller_returned)
  obtain es1 where es1: "dispatched (leave t s) = dispatched s @ es1"
    using growsD[OF grows_leave] by blast
  obtain es2 where es2: "dispatched (leave t ?x) = dispatched ?x @ es2"
    using growsD[OF grows_leave] by blast
  have dy: "dispatched ?y = dispatched s @ es1 @ CartStatusChangeEvent READY # []"
    by (simp add: es1)
  have dx: "dispatched (leave t ?x) = dispatched s @ [] @ CartStatusChangeEvent READY # es2"
    by (simp add: es2)
  show "\<exists>es es'. dispatched (settle t out s) = dispatched s @ es @ CartStatusChangeEvent READY # es'"
  proof (cases "notifyFirst (queue s)")
    case True
    then show ?thesis using dy unfolding eq by (simp only: if_True) blast
  next
    case False
    then show ?thesis using dx unfolding eq by (simp only: if_False) blast
  qed
  have actx: "active (queue ?x) = [(t, InFlight)]" using act by simp
  show "status (settle t out s) = READY" if "notifyFirst (queue s) \<or> waiting (queue s) = []"
  proof (cases "notifyFirst (queue s)")
    case True
    then show ?thesis by (simp add: eq)
  next
    case False
    then have w: "waiting (queue ?x) = []" using that by simp
    show ?thesis using False by (simp add: eq leave_drained[OF w actx])
  qed
  show "\<exists>es es'. dispatched (settle t out s) =
              dispatched s @ es @
              CartEvent ''idle'' (if notifyFirst (queue s) then cart s else cart (settle t out s)) # es'"
    if w: "waiting (queue s) = []"
  proof (cases "notifyFirst (queue s)")
    case True
    have "dispatched ?y = dispatched s @ [] @ CartEvent ''idle'' (cart s) #
        ((if \<exists>c. cart s = Some c \<and> Some (cartRevisionId (config s) c) \<noteq> previousCartRevisionId s
          then [CartEvent ''change'' (cart s)] else []) @ [CartStatusChangeEvent READY])"
      by (simp add: leave_drained[OF w act] onIdle_dispatched)
    then show ?thesis using True unfolding eq by (simp only: if_True) blast
  next
    case False
    have wx: "waiting (queue ?x) = []" using w by simp
    have cx: "cart (leave t ?x) = cart ?x" by simp
    have "dispatched (leave t ?x) = dispatched s @ [CartStatusChangeEvent READY] @
        CartEvent ''idle'' (cart (leave t ?x)) #
        (if \<exists>c. cart ?x = Some c \<and> Some (cartRevisionId (config s) c) \<noteq> previousCartRevisionId ?x
         then [CartEvent ''change'' (cart ?x)] else [])"
      unfolding cx by (simp add: leave_drained[OF wx actx] onIdle_dispatched)
    then show ?thesis using False unfolding eq by (simp only: if_False) blast
  qed
qed

text \<open>The equations that evaluate a run on a concrete input.\<close>

lemmas evals = run_def fresh_def init_def exampleConfig_def emptyInput_def
  fetch_def create_def updateBuyer_def updateDiscountCodes_def updateAttributes_def
  addLineItems_def updateLineItems_def removeLineItems_def
  runCartOperation_def submit_def dispatchEvent_def startFirst_def invoke_def
  leave_def complete_def settle_def settleWith_def deliver_def toCaller_def
  returnValue_def onIdle_def resume_def news_def Let_def pump.simps

lemma quiet_reachable: "list_all quiet (dispatched (run (init cfg nf) ins))"
proof -
  have "grows quiet (init cfg nf) (run (init cfg nf) ins)"
    using wellFormed_init by (rule grows_run)
  then show ?thesis by (simp add: grows_def init_def)
qed

lemma config_reachable: "config (run (init cfg nf) ins) = cfg"
proof (induction ins rule: rev_induct)
  case Nil
  show ?case by (simp add: run_def init_def)
next
  case (snoc i ins)
  let ?s = "run (init cfg nf) ins"
  have wf: "wellFormed ?s" using reachable_invariants[of cfg nf ins] by simp
  have "config (step ?s i) = config ?s"
  proof (cases i)
    case (Call opn)
    then show ?thesis by (simp add: callMethod_cases runCartOperation_def)
  next
    case (Settle n out)
    show ?thesis
      using step_Settle_cases[OF wf, of n out] Settle
      by (auto simp: settle_plain[OF wf])
  qed
  then show ?case using snoc by (simp add: run_snoc)
qed

lemma settle_drained:
  assumes wf: "wellFormed s" and act: "active (queue s) = [(t, InFlight)]"
    and w: "waiting (queue s) = []"
    and h: "h = (if notifyFirst (queue s) then s else settle t out s)"
  shows "dispatched (settle t out s) =
     dispatched s @
     (if notifyFirst (queue s) then [] else [CartStatusChangeEvent READY]) @
     CartEvent ''idle'' (cart h) #
     (if \<exists>c. cart h = Some c \<and> Some (cartRevisionId (config s) c) \<noteq> previousCartRevisionId h
      then [CartEvent ''change'' (cart h)] else []) @
     (if notifyFirst (queue s) then [CartStatusChangeEvent READY] else [])"
proof -
  let ?x = "toCaller t (returnValue t out) (complete t out s)"
  have actx: "active (queue ?x) = [(t, InFlight)]" and wx: "waiting (queue ?x) = []"
    using act w by simp_all
  show ?thesis
  proof (cases "notifyFirst (queue s)")
    case True
    then show ?thesis
      using h by (simp add: settle_plain[OF wf act] leave_drained[OF w act] onIdle_dispatched)
  next
    case False
    then have eq: "settle t out s = leave t ?x" by (simp add: settle_plain[OF wf act])
    have "cart (leave t ?x) = cart ?x" "previousCartRevisionId (leave t ?x) = previousCartRevisionId ?x"
      by simp_all
    then show ?thesis
      using False h unfolding eq
      by (simp add: leave_drained[OF wx actx] onIdle_dispatched)
  qed
qed


section \<open>The status\<close>

lemma startFirst_status: "status (startFirst s) = status s \<or> status (startFirst s) = UPDATING"
  by (auto simp: startFirst_def invoke_def Let_def
        split: list.splits operation.splits option.splits prod.splits)

lemma startFirst_active:
  "waiting (queue s) \<noteq> [] \<Longrightarrow> active (queue (startFirst s)) \<noteq> []"
  by (auto simp: startFirst_def invoke_def Let_def
        split: list.splits operation.splits option.splits prod.splits)

lemma runCartOperation_status:
  assumes "concurrency (queue s) = 1"
  shows "status (runCartOperation opn clr s) = UPDATING"
    and "active (queue (runCartOperation opn clr s)) \<noteq> []"
proof -
  let ?x = "submit opn clr s"
  have c: "concurrency (queue ?x) = 1" using assms by simp
  have w: "waiting (queue ?x) \<noteq> []" by simp
  show "status (runCartOperation opn clr s) = UPDATING"
    using startFirst_status[of ?x] by (auto simp: runCartOperation_def pump_one[OF c])
  show "active (queue (runCartOperation opn clr s)) \<noteq> []"
    using startFirst_active[OF w] by (auto simp: runCartOperation_def pump_one[OF c])
qed

lemma runCartOperation_dispatched:
  "\<exists>es. dispatched (runCartOperation opn clr s) = dispatched s @ CartStatusChangeEvent UPDATING # es"
proof -
  obtain es where "dispatched (pump (submit opn clr s)) = dispatched (submit opn clr s) @ es"
    using growsD[OF grows_pump] by blast
  then show ?thesis by (simp add: runCartOperation_def)
qed

lemma callMethod_status:
  assumes "concurrency (queue s) = 1"
  shows "status (callMethod opn s) = UPDATING"
    and "active (queue (callMethod opn s)) \<noteq> []"
    and "\<exists>es. dispatched (callMethod opn s) = dispatched s @ CartStatusChangeEvent UPDATING # es"
  using runCartOperation_status[OF assms] runCartOperation_dispatched[of opn _ s]
  by (simp_all add: callMethod_cases)

lemma pump_starts:
  "concurrency (queue s) = 1 \<Longrightarrow> waiting (queue s) \<noteq> [] \<Longrightarrow> active (queue s) = [] \<Longrightarrow>
   pump s = startFirst s"
  by (simp add: pump_one)




section \<open>Tasks keep their number and their locals\<close>

text \<open>
  A step only removes tasks from the queue or adds tasks with new numbers; so the task that
  carries the number of a call is the task that call has queued.
\<close>

lemma tasks_submit:
  "tasks (submit opn clr s) = tasks s @
     [\<lparr>tid = submitted s, operation = opn, result = cart s,
       currentRevisionId = map_option (cartRevisionId (config s)) (cart s), caller = clr\<rparr>]"
  by (simp add: tasks_def)

lemma tasks_startFirst:
  "set (tasks (startFirst s)) \<subseteq> set (tasks s) \<union> {u. submitted s \<le> tid u}"
  "set (tasks s) \<subseteq> set (tasks (startFirst s))"
  by (auto simp: tasks_def startFirst_def invoke_def submit_def dispatchEvent_def Let_def
        split: list.splits operation.splits option.splits prod.splits)

lemma tasks_pump:
  "set (tasks (pump s)) \<subseteq> set (tasks s) \<union> {u. submitted s \<le> tid u} \<and>
   set (tasks s) \<subseteq> set (tasks (pump s))"
proof (induction s rule: pump.induct)
  case (1 s)
  show ?case
  proof (cases "waiting (queue s) \<noteq> [] \<and> length (active (queue s)) < concurrency (queue s)")
    case True
    then have eq: "pump s = pump (startFirst s)" by (subst pump.simps) simp
    have ih: "set (tasks (pump (startFirst s))) \<subseteq>
                set (tasks (startFirst s)) \<union> {u. submitted (startFirst s) \<le> tid u}"
      "set (tasks (startFirst s)) \<subseteq> set (tasks (pump (startFirst s)))"
      using 1 True by simp_all
    have "{u. submitted (startFirst s) \<le> tid u} \<subseteq> {u. submitted s \<le> tid u}"
      using submitted_startFirst[of s] by auto
    then show ?thesis
      unfolding eq using ih tasks_startFirst[of s] by blast
  next
    case False
    then have "pump s = s" by (subst pump.simps) auto
    then show ?thesis by simp
  qed
qed

lemma tasks_same [simp]:
  "tasks (onIdle s) = tasks s"
  "tasks (complete t out s) = tasks s"
  "tasks (toCaller t r s) = tasks s"
  "tasks (s\<lparr>returned := x\<rparr>) = tasks s"
  by (simp_all add: tasks_def)

lemma tasks_leave:
  "set (tasks (leave t s)) \<subseteq> set (tasks s) \<union> {u. submitted s \<le> tid u}"
proof -
  let ?s1 = "s\<lparr>queue := (queue s)\<lparr>active := filter (\<lambda>(u, ph). tid u \<noteq> tid t) (active (queue s))\<rparr>,
                 trace := trace s @ [Finished (tid t)]\<rparr>"
  have "set (tasks ?s1) \<subseteq> set (tasks s)" by (auto simp: tasks_def)
  moreover have "set (tasks (pump ?s1)) \<subseteq> set (tasks ?s1) \<union> {u. submitted ?s1 \<le> tid u}"
    using tasks_pump[of ?s1] by blast
  moreover have "tasks (leave t s) = tasks (pump ?s1)"
    unfolding leave_def Let_def by simp
  ultimately show ?thesis by auto
qed

lemma tasks_callMethod:
  "set (tasks (callMethod opn s)) \<subseteq>
     set (tasks s) \<union>
     {\<lparr>tid = submitted s, operation = opn, result = cart s,
       currentRevisionId = map_option (cartRevisionId (config s)) (cart s),
       caller = (if isFetch opn then Discarded else Caller)\<rparr>} \<union>
     {u. Suc (submitted s) \<le> tid u}"
  "\<lparr>tid = submitted s, operation = opn, result = cart s,
     currentRevisionId = map_option (cartRevisionId (config s)) (cart s),
     caller = (if isFetch opn then Discarded else Caller)\<rparr> \<in> set (tasks (callMethod opn s))"
proof -
  let ?c = "if isFetch opn then Discarded else Caller"
  let ?x = "submit opn ?c s"
  have eq: "tasks (callMethod opn s) = tasks (pump ?x)"
    by (simp add: callMethod_cases runCartOperation_def)
  show "set (tasks (callMethod opn s)) \<subseteq>
     set (tasks s) \<union>
     {\<lparr>tid = submitted s, operation = opn, result = cart s,
       currentRevisionId = map_option (cartRevisionId (config s)) (cart s),
       caller = ?c\<rparr>} \<union>
     {u. Suc (submitted s) \<le> tid u}"
    unfolding eq using tasks_pump[of ?x] by (auto simp: tasks_submit)
  show "\<lparr>tid = submitted s, operation = opn, result = cart s,
     currentRevisionId = map_option (cartRevisionId (config s)) (cart s),
     caller = ?c\<rparr> \<in> set (tasks (callMethod opn s))"
    unfolding eq using tasks_pump[of ?x] by (auto simp: tasks_submit)
qed

lemma submitted_callMethod: "submitted s < submitted (callMethod opn s)"
  using submitted_runCartOperation[of s opn] by (simp add: callMethod_cases)

lemma step_tasks:
  assumes wf: "wellFormed s"
  shows "set (tasks (step s i)) \<subseteq> set (tasks s) \<union> {u. submitted s \<le> tid u}"
    and "submitted s \<le> submitted (step s i)"
proof -
  have "set (tasks (step s i)) \<subseteq> set (tasks s) \<union> {u. submitted s \<le> tid u} \<and>
        submitted s \<le> submitted (step s i)"
  proof (cases i)
    case (Call opn)
    then show ?thesis
      using tasks_callMethod(1)[of opn s] submitted_callMethod[of s opn] by auto
  next
    case (Settle n out)
    from step_Settle_cases[OF wf, of n out] show ?thesis
    proof
      assume "\<exists>t. active (queue s) = [(t, InFlight)] \<and> tid t = n \<and>
                  step s (Settle n out) = settle t out s"
      then obtain t where act: "active (queue s) = [(t, InFlight)]"
        and st: "step s (Settle n out) = settle t out s" by blast
      let ?x = "toCaller t (returnValue t out) (complete t out s)"
      have a: "tasks (toCaller t (returnValue t out) (complete t out (leave t s))) = tasks (leave t s)"
        "tasks ?x = tasks s" "submitted ?x = submitted s"
        "submitted (toCaller t (returnValue t out) (complete t out (leave t s))) = submitted (leave t s)"
        by simp_all
      show ?thesis
        unfolding Settle st settle_plain[OF wf act]
        using tasks_leave[of t s] tasks_leave[of t ?x] submitted_leave[of s t] submitted_leave[of ?x t] a
        by (auto split: if_splits)
    next
      assume "step s (Settle n out) = s \<and>
              \<not> (\<exists>t. (t, InFlight) \<in> set (active (queue s)) \<and> tid t = n)"
      then show ?thesis using Settle by simp
    qed
  qed
  then show "set (tasks (step s i)) \<subseteq> set (tasks s) \<union> {u. submitted s \<le> tid u}"
    and "submitted s \<le> submitted (step s i)" by blast+
qed

lemma run_tasks:
  assumes "wellFormed s"
  shows "set (tasks (run s ins)) \<subseteq> set (tasks s) \<union> {u. submitted s \<le> tid u} \<and>
         submitted s \<le> submitted (run s ins)"
proof (induction ins rule: rev_induct)
  case Nil
  show ?case by (simp add: run_def)
next
  case (snoc i ins)
  have wf: "wellFormed (run s ins)" using assms by (rule wellFormed_run)
  have "{u. submitted (run s ins) \<le> tid u} \<subseteq> {u. submitted s \<le> tid u}"
    using snoc by auto
  moreover have "submitted s \<le> submitted (step (run s ins) i)"
    using snoc step_tasks(2)[OF wf, of i] by simp
  ultimately show ?case
    unfolding run_snoc using snoc step_tasks(1)[OF wf, of i] by blast
qed

lemma numbered_bound:
  assumes "numbered s" "u \<in> set (tasks s)"
  shows "tid u < submitted s"
proof -
  obtain k where "map tid (tasks s) = [k..<submitted s]"
    using assms(1) unfolding numbered_def by blast
  moreover have "tid u \<in> set (map tid (tasks s))" using assms(2) by simp
  ultimately have "tid u \<in> set [k..<submitted s]" by (simp only:)
  then show ?thesis by simp
qed

lemma task_of_call:
  assumes wf: "wellFormed s0" and nu: "numbered s0"
    and s: "s = run (callMethod opn s0) post"
    and t: "t \<in> set (tasks s)" "tid t = submitted s0"
  shows "t = \<lparr>tid = submitted s0, operation = opn, result = cart s0,
       currentRevisionId = map_option (cartRevisionId (config s0)) (cart s0),
       caller = (if isFetch opn then Discarded else Caller)\<rparr>"
proof -
  have wf1: "wellFormed (callMethod opn s0)" using wf by (rule wellFormed_callMethod)
  have "t \<in> set (tasks (callMethod opn s0)) \<or> submitted (callMethod opn s0) \<le> tid t"
    using run_tasks[OF wf1, of post] t(1) s by auto
  then have "t \<in> set (tasks (callMethod opn s0))"
    using submitted_callMethod[of s0 opn] t(2) by auto
  then have "t \<in> set (tasks s0) \<or>
     t = \<lparr>tid = submitted s0, operation = opn, result = cart s0,
       currentRevisionId = map_option (cartRevisionId (config s0)) (cart s0),
       caller = (if isFetch opn then Discarded else Caller)\<rparr> \<or> Suc (submitted s0) \<le> tid t"
    using tasks_callMethod(1)[of opn s0] by auto
  then show ?thesis using numbered_bound[OF nu, of t] t(2) by auto
qed

lemma inflight_task: "(t, ph) \<in> set (active (queue s)) \<Longrightarrow> t \<in> set (tasks s)"
  by (force simp: tasks_def)

lemma callMethod_calls:
  assumes "concurrency (queue s) = 1"
  shows "active (queue s) \<noteq> [] \<Longrightarrow> calls (callMethod (Fetch i) s) = calls s"
    and "active (queue s) = [] \<Longrightarrow> waiting (queue s) = [] \<Longrightarrow>
         calls (callMethod (Fetch i) s) = calls s @ [CallFetch i]"
proof -
  show "calls (callMethod (Fetch i) s) = calls s" if "active (queue s) \<noteq> []"
    using callMethod_busy[OF assms that, of "Fetch i"] by simp
  show "calls (callMethod (Fetch i) s) = calls s @ [CallFetch i]"
    if "active (queue s) = []" "waiting (queue s) = []"
  proof -
    let ?x = "submit (Fetch i) Discarded s"
    have "pump ?x = startFirst ?x" by (rule pump_starts) (use assms that in simp_all)
    then show ?thesis
      using that
      by (simp add: fetch_def runCartOperation_def Let_def startFirst_def invoke_def)
  qed
qed

lemma change_on_drain:
  assumes wf: "wellFormed s" and act: "active (queue s) = [(t, InFlight)]"
    and w: "waiting (queue s) = []"
    and h: "h = (if notifyFirst (queue s) then s else settle t out s)"
  shows "CartEvent ''change'' x \<in> set (news s (settle t out s)) \<longleftrightarrow>
           (\<exists>c. x = Some c \<and> cart h = Some c \<and>
                Some (cartRevisionId (config s) c) \<noteq> previousCartRevisionId h)"
proof -
  have "news s (settle t out s) =
     (if notifyFirst (queue s) then [] else [CartStatusChangeEvent READY]) @
     CartEvent ''idle'' (cart h) #
     (if \<exists>c. cart h = Some c \<and> Some (cartRevisionId (config s) c) \<noteq> previousCartRevisionId h
      then [CartEvent ''change'' (cart h)] else []) @
     (if notifyFirst (queue s) then [CartStatusChangeEvent READY] else [])"
    unfolding news_def settle_drained[OF wf act w h] by simp
  then show ?thesis by auto
qed

section \<open>A started task that does not settle\<close>

lemma held_step:
  assumes "concurrency (queue s) = 1" "active (queue s) = [(t, ph)]"
    and "ph = InFlight \<longrightarrow> \<not> settles (tid t) i"
  shows "concurrency (queue (step s i)) = 1 \<and>
         active (queue (step s i)) = [(t, ph)] \<and>
         calls (step s i) = calls s \<and> errors (step s i) = errors s \<and>
         submitted s \<le> submitted (step s i) \<and>
         (status s = UPDATING \<longrightarrow> status (step s i) = UPDATING) \<and>
         (returned (step s i) = returned s \<or>
          returned (step s i) = returned s @ [(submitted s, Undefined)])"
proof (cases i)
  case (Call opn)
  then show ?thesis using assms(1,2) by (simp add: callMethod_busy)
next
  case (Settle n out)
  then show ?thesis using assms by auto
qed

lemma held_run:
  assumes "concurrency (queue s) = 1" "active (queue s) = [(t, ph)]"
    and "ph = InFlight \<longrightarrow> list_all (\<lambda>i. \<not> settles (tid t) i) ins"
  shows "active (queue (run s ins)) = [(t, ph)] \<and>
         calls (run s ins) = calls s \<and> errors (run s ins) = errors s \<and>
         (status s = UPDATING \<longrightarrow> status (run s ins) = UPDATING) \<and>
         (\<exists>rs. returned (run s ins) = returned s @ rs \<and>
               list_all (\<lambda>(k, v). v = Undefined \<and> submitted s \<le> k) rs)"
  using assms
proof (induction ins arbitrary: s)
  case Nil
  show ?case using Nil by (simp add: run_def)
next
  case (Cons i ins)
  have ni: "ph = InFlight \<longrightarrow> \<not> settles (tid t) i"
    and rest: "ph = InFlight \<longrightarrow> list_all (\<lambda>i. \<not> settles (tid t) i) ins"
    using Cons.prems(3) by simp_all
  note st = held_step[OF Cons.prems(1,2) ni]
  have c: "concurrency (queue (step s i)) = 1" and a: "active (queue (step s i)) = [(t, ph)]"
    and le: "submitted s \<le> submitted (step s i)"
    using st by blast+
  obtain r1 where r1: "returned (step s i) = returned s @ r1"
    "list_all (\<lambda>(k, v). v = Undefined \<and> submitted s \<le> k) r1"
  proof (cases "returned (step s i) = returned s")
    case True
    then show ?thesis using that[of "[]"] by simp
  next
    case False
    then have "returned (step s i) = returned s @ [(submitted s, Undefined)]" using st by blast
    then show ?thesis using that[of "[(submitted s, Undefined)]"] by simp
  qed
  from Cons.IH[OF c a rest] obtain rs where
    ih: "active (queue (run (step s i) ins)) = [(t, ph)]"
      "calls (run (step s i) ins) = calls (step s i)"
      "errors (run (step s i) ins) = errors (step s i)"
      "status (step s i) = UPDATING \<longrightarrow> status (run (step s i) ins) = UPDATING"
      "returned (run (step s i) ins) = returned (step s i) @ rs"
      "list_all (\<lambda>(k, v). v = Undefined \<and> submitted (step s i) \<le> k) rs"
    by blast
  have "list_all (\<lambda>(k, v). v = Undefined \<and> submitted s \<le> k) rs"
    using ih(6) le by (auto simp: list_all_iff)
  then have "returned (run (step s i) ins) = returned s @ (r1 @ rs)"
    "list_all (\<lambda>(k, v). v = Undefined \<and> submitted s \<le> k) (r1 @ rs)"
    using ih(5) r1 by simp_all
  then have "\<exists>rs. returned (run (step s i) ins) = returned s @ rs \<and>
                  list_all (\<lambda>(k, v). v = Undefined \<and> submitted s \<le> k) rs" by blast
  then show ?case using ih(1,2,3,4) st by (simp add: run_Cons)
qed


section \<open>An operation called on a free queue\<close>



section \<open>What reaches the error sink\<close>

lemma errors_callMethod: "errors (callMethod opn s) = errors s"
  by (simp add: callMethod_cases runCartOperation_def)

lemma errors_step:
  assumes "wellFormed s"
  shows "errors (step s i) = errors s \<or>
         (\<exists>k e. i = Settle k (Inl e) \<and> errors (step s i) = errors s @ [e])"
proof (cases i)
  case (Call opn)
  then show ?thesis by (simp add: errors_callMethod)
next
  case (Settle n out)
  from step_Settle_cases[OF assms, of n out]
  show ?thesis
  proof
    assume "\<exists>t. active (queue s) = [(t, InFlight)] \<and> tid t = n \<and> step s (Settle n out) = settle t out s"
    then obtain t where t: "active (queue s) = [(t, InFlight)]" "step s (Settle n out) = settle t out s"
      by blast
    show ?thesis unfolding Settle t(2) using settle_effect(1)[OF assms t(1), of out]
      by (cases out) simp_all
  next
    assume "step s (Settle n out) = s \<and> \<not> (\<exists>t. (t, InFlight) \<in> set (active (queue s)) \<and> tid t = n)"
    then show ?thesis using Settle by simp
  qed
qed

lemma errors_reachable:
  "set (errors (run (init cfg nf) ins)) \<subseteq> {e. \<exists>k. Settle k (Inl e) \<in> set ins}"
proof (induction ins rule: rev_induct)
  case Nil
  show ?case by (simp add: run_def init_def)
next
  case (snoc i ins)
  let ?z = "run (init cfg nf) ins"
  have wf: "wellFormed ?z" using reachable_invariants[of cfg nf ins] by simp
  have mono: "{e. \<exists>k. Settle k (Inl e) \<in> set ins} \<subseteq> {e. \<exists>k. Settle k (Inl e) \<in> set (ins @ [i])}"
    by auto
  from errors_step[OF wf, of i]
  have "set (errors (step ?z i)) \<subseteq> {e. \<exists>k. Settle k (Inl e) \<in> set (ins @ [i])}"
  proof
    assume "errors (step ?z i) = errors ?z"
    then have "set (errors (step ?z i)) = set (errors ?z)" by (simp only:)
    then show ?thesis using snoc mono by blast
  next
    assume "\<exists>k e. i = Settle k (Inl e) \<and> errors (step ?z i) = errors ?z @ [e]"
    then obtain k e where i: "i = Settle k (Inl e)" and e: "errors (step ?z i) = errors ?z @ [e]"
      by blast
    have "e \<in> {e. \<exists>k. Settle k (Inl e) \<in> set (ins @ [i])}" using i by auto
    moreover have "set (errors (step ?z i)) = set (errors ?z) \<union> {e}"
      by (simp only: e) simp
    ultimately show ?thesis using snoc mono by blast
  qed
  then show ?case by (simp only: run_snoc)
qed

section \<open>The claims\<close>

text \<open>
  C1. A mutation called when there is no cart and the queue is free never reaches the
  provider. Its task is started, calls \<^verbatim>\<open>this.create({})\<close> and waits for it; the task of that
  \<^verbatim>\<open>create\<close> waits in the queue behind the started task, and the queue starts nothing while
  a task is started. So, whatever happens afterwards, no provider operation is called any
  more (neither \<^verbatim>\<open>create\<close> nor the mutation), the promise of the mutation never resolves,
  and the task stays suspended at \<^verbatim>\<open>await this.create({})\<close>.
\<close>

theorem C1_mutation_without_cart_never_reaches_provider:
  assumes "s = run (init cfg nf) pre" and "cart s = None" and "active (queue s) = []"
  shows "calls (run s (Call (Mutate m) # ins)) = calls s \<and>
         submitted s \<notin> fst ` set (returned (run s (Call (Mutate m) # ins))) \<and>
         (\<exists>t i. active (queue (run s (Call (Mutate m) # ins))) = [(t, AwaitingCreate i)] \<and>
                tid t = submitted s \<and> operation t = Mutate m)"
proof -
  let ?t = "\<lparr>tid = submitted s, operation = Mutate m, result = None,
              currentRevisionId = None, caller = Caller\<rparr> :: ('a, 'b, 'c) task"
  let ?s1 = "callMethod (Mutate m) s"
  have wf: "wellFormed s" and nu: "numbered s"
    using reachable_invariants[of cfg nf pre] assms(1) by simp_all
  have c1: "concurrency (queue s) = 1" and w: "waiting (queue s) = []"
    using wf assms(3) by (auto simp: wellFormed_def stuck_def flowing_def)
  note s1 = call_without_cart[OF c1 assms(3) w assms(2), of m]
  have "list_all (\<lambda>(k, v). k < submitted s) (returned s)"
    using nu by (simp add: numbered_def)
  then have r: "list_all (\<lambda>(k, v). k \<noteq> submitted s) (returned ?s1)"
    unfolding s1(3) by (rule list.pred_mono_strong) auto
  have "submitted s < submitted ?s1" by (simp add: s1(4))
  from stuck_run[OF s1(5) s1(1) this r, of ins]
  have "active (queue (run ?s1 ins)) = [(?t, AwaitingCreate (Suc (submitted s)))]"
    "calls (run ?s1 ins) = calls s"
    "list_all (\<lambda>(k, v). k \<noteq> submitted s) (returned (run ?s1 ins))"
    by (simp_all add: s1(2))
  then show ?thesis
    by (auto simp: run_Cons list_all_iff)
qed

theorem C1_mutation_without_cart_witness:
  "calls (run (fresh True)
      [Call (Mutate (UpdateAttributes [])), Settle 1 (Inr (''c'', ''r'')),
       Settle 0 (Inr (''c'', ''r'')), Call (Create emptyInput)]) = [] \<and>
   0 \<notin> fst ` set (returned (run (fresh True)
      [Call (Mutate (UpdateAttributes [])), Settle 1 (Inr (''c'', ''r'')),
       Settle 0 (Inr (''c'', ''r'')), Call (Create emptyInput)]))"
  using C1_mutation_without_cart_never_reaches_provider
    [of "fresh True" exampleConfig True "[]" "UpdateAttributes []"
        "[Settle 1 (Inr (''c'', ''r'')), Settle 0 (Inr (''c'', ''r'')), Call (Create emptyInput)]"]
  by (simp add: fresh_def run_def init_def)




text \<open>
  C3. When the provider rejects the call of a started task, the rejection is passed to
  \<^verbatim>\<open>onError\<close> once and nothing else is, the cart stays as it was, the caller's promise
  resolves (with the snapshot read when the operation was called; the promise of \<^verbatim>\<open>fetch\<close>
  has resolved before), a status event with \<^verbatim>\<open>READY\<close> is dispatched, and the status is
  \<^verbatim>\<open>READY\<close> when the step ends (unless the queue, after the continuation, has started a
  waiting task in the same step).
\<close>

theorem C3_rejection_goes_to_the_error_sink:
  assumes "s = run (init cfg nf) ins" and "(t, InFlight) \<in> set (active (queue s))"
  shows "errors (step s (Settle (tid t) (Inl e))) = errors s @ [e] \<and>
         cart (step s (Settle (tid t) (Inl e))) = cart s \<and>
         returned (step s (Settle (tid t) (Inl e))) =
           returned s @ (if caller t = Caller then [(tid t, Snapshot (result t))] else []) \<and>
         (\<exists>es es'. dispatched (step s (Settle (tid t) (Inl e))) =
                     dispatched s @ es @ CartStatusChangeEvent READY # es') \<and>
         (notifyFirst (queue s) \<or> waiting (queue s) = [] \<longrightarrow>
            status (step s (Settle (tid t) (Inl e))) = READY)"
proof -
  have wf: "wellFormed s" using reachable_invariants[of cfg nf ins] assms(1) by simp
  have act: "active (queue s) = [(t, InFlight)]" using wf assms(2) by (rule inflight_only)
  have st: "step s (Settle (tid t) (Inl e)) = settle t (Inl e) s"
    using wf assms(2) by (rule step_inflight)
  show ?thesis
    unfolding st using settle_effect[OF wf act, of "Inl e"]
    by (simp add: returnValue_def)
qed

theorem C3_rejection_witness:
  "errors (run (fresh False)
      [Call (Create emptyInput), Settle 0 (Inr (''c'', ''r1'')),
       Call (Mutate (UpdateBuyer ''b'')), Settle 1 (Inl (Rejected ''refused''))]) =
     [Rejected ''refused''] \<and>
   cart (run (fresh False)
      [Call (Create emptyInput), Settle 0 (Inr (''c'', ''r1'')),
       Call (Mutate (UpdateBuyer ''b'')), Settle 1 (Inl (Rejected ''refused''))]) =
     Some (''c'', ''r1'') \<and>
   returned (run (fresh False)
      [Call (Create emptyInput), Settle 0 (Inr (''c'', ''r1'')),
       Call (Mutate (UpdateBuyer ''b'')), Settle 1 (Inl (Rejected ''refused''))]) =
     [(0, Snapshot (Some (''c'', ''r1''))), (1, Snapshot (Some (''c'', ''r1'')))] \<and>
   status (run (fresh False)
      [Call (Create emptyInput), Settle 0 (Inr (''c'', ''r1'')),
       Call (Mutate (UpdateBuyer ''b'')), Settle 1 (Inl (Rejected ''refused''))]) = READY"
proof -
  let ?ins = "[Call (Create emptyInput), Settle 0 (Inr (''c'', ''r1'')),
       Call (Mutate (UpdateBuyer ''b''))] :: (string \<times> string, string, string) input list"
  let ?s = "run (init exampleConfig False) ?ins :: (string \<times> string, string, string) AsyncCart"
  let ?t = "\<lparr>tid = 1, operation = Mutate (UpdateBuyer ''b''), result = Some (''c'', ''r1''),
      currentRevisionId = Some ''r1'', caller = Caller\<rparr> :: (string \<times> string, string, string) task"
  have a: "(?t, InFlight) \<in> set (active (queue ?s))" by (simp add: evals)
  have b: "errors ?s = []" "cart ?s = Some (''c'', ''r1'')"
    "returned ?s = [(0, Snapshot (Some (''c'', ''r1'')))]" "waiting (queue ?s) = []"
    by (simp_all add: evals)
  have l: "[Call (Create emptyInput), Settle 0 (Inr (''c'', ''r1'')),
       Call (Mutate (UpdateBuyer ''b'')), Settle 1 (Inl (Rejected ''refused''))] =
       ?ins @ [Settle (tid ?t) (Inl (Rejected ''refused''))]"
    by simp
  show ?thesis
    unfolding fresh_def l run_snoc
    using C3_rejection_goes_to_the_error_sink[OF refl a, of "Rejected ''refused''"] b
    by simp
qed

text \<open>
  C4. Whatever operations are submitted and however the provider answers, at most one task
  is started at any moment, and the tasks are started in the order in which they were
  submitted, each only after the one before it has settled (successfully or not).
\<close>

theorem C4_one_task_at_a_time_in_submission_order:
  "length (active (queue (run (init cfg nf) ins))) \<le> 1 \<and>
   serial 0 (trace (run (init cfg nf) ins))"
proof -
  let ?s = "run (init cfg nf) ins"
  have wf: "wellFormed ?s" and nu: "numbered ?s"
    using reachable_invariants[of cfg nf ins] by simp_all
  have "length (active (queue ?s)) \<le> 1"
    using wf by (auto simp: wellFormed_def stuck_def flowing_def)
  then show ?thesis using serial_numbered[OF nu] by simp
qed




text \<open>
  C6, as the code has it. A mutation called when there is no cart and no task is started
  never gets to \<^verbatim>\<open>if (!cart) throw new Error(...)\<close>: its closure stays suspended at
  \<^verbatim>\<open>await this.create({})\<close>, one line before, because the task of that \<^verbatim>\<open>create\<close> waits in
  the queue behind it. Whatever happens afterwards, nothing is passed to \<^verbatim>\<open>onError\<close> any
  more, the error of the closure least of all, and the promise of the mutation does not
  settle, so its caller learns of no failure either. What \<^verbatim>\<open>onError\<close> has received before
  the call are failures with which the provider rejected a call, and nothing else.
\<close>

theorem C6_missing_cart_error_is_never_raised:
  assumes "s = run (init cfg nf) pre" and "cart s = None" and "active (queue s) = []"
  shows "set (errors s) \<subseteq> {e. \<exists>k. Settle k (Inl e) \<in> set pre} \<and>
         errors (run s (Call (Mutate m) # ins)) = errors s \<and>
         submitted s \<notin> fst ` set (returned (run s (Call (Mutate m) # ins))) \<and>
         (\<exists>t i. active (queue (run s (Call (Mutate m) # ins))) = [(t, AwaitingCreate i)] \<and>
                tid t = submitted s \<and> operation t = Mutate m)"
proof -
  let ?t = "\<lparr>tid = submitted s, operation = Mutate m, result = None,
              currentRevisionId = None, caller = Caller\<rparr> :: ('a, 'b, 'c) task"
  let ?x = "callMethod (Mutate m) s"
  have wf: "wellFormed s" and nu: "numbered s"
    using reachable_invariants[of cfg nf pre] assms(1) by simp_all
  have c1: "concurrency (queue s) = 1" and w: "waiting (queue s) = []"
    using wf assms(3) by (auto simp: wellFormed_def stuck_def flowing_def)
  note s1 = call_without_cart[OF c1 assms(3) w assms(2), of m]
  have 0: "set (errors s) \<subseteq> {e. \<exists>k. Settle k (Inl e) \<in> set pre}"
    unfolding assms(1) by (rule errors_reachable)
  from held_run[OF s1(5) s1(1), of ins] obtain rs where
    h: "active (queue (run ?x ins)) = [(?t, AwaitingCreate (Suc (submitted s)))]"
      "errors (run ?x ins) = errors ?x"
      "returned (run ?x ins) = returned ?x @ rs"
      "list_all (\<lambda>(k, v). v = Undefined \<and> submitted ?x \<le> k) rs"
    by auto
  have 1: "errors (run ?x ins) = errors s" using h(2) by (simp add: errors_callMethod)
  have old: "list_all (\<lambda>(k, v). k < submitted s) (returned s)"
    using nu by (simp add: numbered_def)
  have "submitted s \<notin> fst ` set (returned s)" using old by (auto simp: list_all_iff)
  moreover have "submitted s \<notin> fst ` set rs" using h(4) by (auto simp: list_all_iff s1(4))
  ultimately have 2: "submitted s \<notin> fst ` set (returned (run ?x ins))"
    unfolding h(3) s1(3) by auto
  show ?thesis using 0 1 2 h(1) by (simp add: run_Cons)
qed

theorem C6_missing_cart_witness:
  "errors (run (fresh True)
      [Call (Mutate (UpdateBuyer ''b'')), Call (Fetch ''id''), Call (Create emptyInput)]) = [] \<and>
   0 \<notin> fst ` set (returned (run (fresh True)
      [Call (Mutate (UpdateBuyer ''b'')), Call (Fetch ''id''), Call (Create emptyInput)]))"
  using C6_missing_cart_error_is_never_raised
    [of "fresh True" exampleConfig True "[]" "UpdateBuyer ''b''"
        "[Call (Fetch ''id''), Call (Create emptyInput)]"]
  by (simp add: fresh_def run_def init_def)




text \<open>
  C8. \<^verbatim>\<open>fetch\<close> is called in the state \<open>s0\<close>. Its promise resolves at once with
  \<^verbatim>\<open>undefined\<close>; the status becomes \<^verbatim>\<open>UPDATING\<close> with its event; the closure is put into the
  queue like any other, so the provider is called at once when nothing is started and not
  yet when a task is started. When the task is later in flight (state \<open>s\<close>) and the provider
  resolves with \<open>v\<close>: \<open>v\<close> becomes the cart, no promise of a caller resolves, a status event
  with \<^verbatim>\<open>READY\<close> is dispatched and, when nothing waits, an \<^verbatim>\<open>'idle'\<close> event, followed by a
  \<^verbatim>\<open>'change'\<close> event exactly when the listener finds a snapshot whose revision differs from
  the stored previous revision.
\<close>

theorem C8_fetch_resolves_with_nothing_and_runs_through_the_queue:
  assumes "s0 = run (init cfg nf) pre" and "s = run (step s0 (Call (Fetch i))) post"
    and "(t, InFlight) \<in> set (active (queue s))" and "tid t = submitted s0"
  shows "returned (step s0 (Call (Fetch i))) = returned s0 @ [(submitted s0, Undefined)] \<and>
         status (step s0 (Call (Fetch i))) = UPDATING \<and>
         (\<exists>es. dispatched (step s0 (Call (Fetch i))) =
                  dispatched s0 @ CartStatusChangeEvent UPDATING # es) \<and>
         calls (step s0 (Call (Fetch i))) =
           calls s0 @ (if active (queue s0) = [] then [CallFetch i] else []) \<and>
         operation t = Fetch i \<and>
         cart (step s (Settle (tid t) (Inr v))) = Some v \<and>
         returned (step s (Settle (tid t) (Inr v))) = returned s \<and>
         (\<exists>es es'. dispatched (step s (Settle (tid t) (Inr v))) =
                     dispatched s @ es @ CartStatusChangeEvent READY # es') \<and>
         (waiting (queue s) = [] \<longrightarrow>
            (\<exists>es es'. dispatched (step s (Settle (tid t) (Inr v))) =
               dispatched s @ es @
               CartEvent ''idle'' (if notifyFirst (queue s) then cart s else Some v) # es') \<and>
            (CartEvent ''change'' x \<in> set (news s (step s (Settle (tid t) (Inr v)))) \<longleftrightarrow>
               (if notifyFirst (queue s)
                then \<exists>c. x = Some c \<and> cart s = Some c \<and>
                         Some (cartRevisionId cfg c) \<noteq> previousCartRevisionId s
                else x = Some v \<and>
                     Some (cartRevisionId cfg v) \<noteq>
                       previousCartRevisionId (step s (Settle (tid t) (Inr v))))))"
proof -
  have i0: "wellFormed s0" "numbered s0"
    using reachable_invariants[of cfg nf pre] assms(1) by simp_all
  have c0: "concurrency (queue s0) = 1" using i0(1) by (simp add: wellFormed_def)
  have w0: "waiting (queue s0) = []" if "active (queue s0) = []"
    using i0(1) that by (auto simp: wellFormed_def stuck_def flowing_def)
  have "s = run (init cfg nf) (pre @ Call (Fetch i) # post)"
    using assms(1,2) by (simp add: run_def)
  then have wf: "wellFormed s"
    using reachable_invariants[of cfg nf "pre @ Call (Fetch i) # post"] by simp
  have act: "active (queue s) = [(t, InFlight)]" using wf assms(3) by (rule inflight_only)
  have st: "step s (Settle (tid t) (Inr v)) = settle t (Inr v) s"
    using wf assms(3) by (rule step_inflight)
  have "s = run (callMethod (Fetch i) s0) post" using assms(2) by simp
  from task_of_call[OF i0 this inflight_task[OF assms(3)] assms(4)]
  have t: "operation t = Fetch i" "caller t = Discarded"
    by (metis task.select_convs(2), metis (lifting) isFetch.simps(1) task.select_convs(5))
  have 1: "returned (step s0 (Call (Fetch i))) = returned s0 @ [(submitted s0, Undefined)]"
    by (simp add: fetch_def Let_def runCartOperation_def)
  have 2: "status (step s0 (Call (Fetch i))) = UPDATING"
    "\<exists>es. dispatched (step s0 (Call (Fetch i))) =
                  dispatched s0 @ CartStatusChangeEvent UPDATING # es"
    using callMethod_status[OF c0, of "Fetch i"] by simp_all
  have 3: "calls (step s0 (Call (Fetch i))) =
           calls s0 @ (if active (queue s0) = [] then [CallFetch i] else [])"
    using callMethod_calls[OF c0, of i] w0 by (cases "active (queue s0) = []") simp_all
  have 4: "cart (step s (Settle (tid t) (Inr v))) = Some v"
    "returned (step s (Settle (tid t) (Inr v))) = returned s"
    "\<exists>es es'. dispatched (step s (Settle (tid t) (Inr v))) =
                     dispatched s @ es @ CartStatusChangeEvent READY # es'"
    unfolding st using settle_effect(2,3,4)[OF wf act, of "Inr v"] t(2) by simp_all
  have 5: "\<exists>es es'. dispatched (step s (Settle (tid t) (Inr v))) =
               dispatched s @ es @
               CartEvent ''idle'' (if notifyFirst (queue s) then cart s else Some v) # es'"
    if "waiting (queue s) = []"
    using settle_effect(6)[OF wf act that, of "Inr v"] 4(1) unfolding st
    by (cases "notifyFirst (queue s)") simp_all
  have cf: "config s = cfg"
    using config_reachable[of cfg nf "pre @ Call (Fetch i) # post"]
      \<open>s = run (init cfg nf) (pre @ Call (Fetch i) # post)\<close> by simp
  have 6: "CartEvent ''change'' x \<in> set (news s (step s (Settle (tid t) (Inr v)))) \<longleftrightarrow>
               (if notifyFirst (queue s)
                then \<exists>c. x = Some c \<and> cart s = Some c \<and>
                         Some (cartRevisionId cfg c) \<noteq> previousCartRevisionId s
                else x = Some v \<and>
                     Some (cartRevisionId cfg v) \<noteq>
                       previousCartRevisionId (step s (Settle (tid t) (Inr v))))"
    if "waiting (queue s) = []"
    using change_on_drain[OF wf act that refl, of x "Inr v"] 4(1) cf unfolding st
    by (cases "notifyFirst (queue s)") auto
  show ?thesis using 1 2 3 t(1) 4 5 6 by blast
qed

theorem C8_fetch_witness:
  "returned (run (fresh False) [Call (Fetch ''id'')]) = [(0, Undefined)] \<and>
   calls (run (fresh False) [Call (Fetch ''id'')]) = [CallFetch ''id''] \<and>
   cart (run (fresh False) [Call (Fetch ''id''), Settle 0 (Inr (''c'', ''r1''))]) =
     Some (''c'', ''r1'') \<and>
   returned (run (fresh False) [Call (Fetch ''id''), Settle 0 (Inr (''c'', ''r1''))]) =
     [(0, Undefined)]"
proof -
  let ?pre = "[] :: (string \<times> string, string, string) input list"
  let ?a = "run (init exampleConfig False) ?pre"
  let ?s = "step ?a (Call (Fetch ''id''))"
  let ?t = "\<lparr>tid = 0, operation = Fetch ''id'', result = None, currentRevisionId = None,
      caller = Discarded\<rparr> :: (string \<times> string, string, string) task"
  have p: "?s = run (step ?a (Call (Fetch ''id''))) []" by (simp add: run_def)
  have a: "(?t, InFlight) \<in> set (active (queue ?s))" by (simp add: evals)
  have b: "tid ?t = submitted ?a" by (simp add: evals)
  have c: "returned ?a = []" "calls ?a = []" "submitted ?a = 0" "active (queue ?a) = []"
    by (simp_all add: evals)
  have d: "tid ?t = 0" by simp
  have l: "run (fresh False) [Call (Fetch ''id'')] = ?s"
    "run (fresh False) [Call (Fetch ''id''), Settle 0 (Inr (''c'', ''r1''))] =
     step ?s (Settle 0 (Inr (''c'', ''r1'')))"
    by (simp_all add: run_def fresh_def)
  note th = C8_fetch_resolves_with_nothing_and_runs_through_the_queue
     [OF refl p a b, of "(''c'', ''r1'')", unfolded d]
  have "returned ?s = returned ?a @ [(submitted ?a, Undefined)]"
    "calls ?s = calls ?a @ (if active (queue ?a) = [] then [CallFetch ''id''] else [])"
    using th by blast+
  then have 1: "returned ?s = [(0, Undefined)]" "calls ?s = [CallFetch ''id'']"
    by (simp_all only: c append_Nil if_True refl)
  have 2: "cart (step ?s (Settle 0 (Inr (''c'', ''r1'')))) = Some (''c'', ''r1'')"
    "returned (step ?s (Settle 0 (Inr (''c'', ''r1'')))) = returned ?s"
    using th by blast+
  show ?thesis unfolding l by (simp only: 1 2 simp_thms)
qed

text \<open>
  C9. In every reachable state: no \<^verbatim>\<open>'change'\<close> event carrying \<^verbatim>\<open>null\<close> has been dispatched;
  when the last task in the queue settles (the queue drains), an \<^verbatim>\<open>'idle'\<close> event is
  dispatched that carries the snapshot held at that moment, \<^verbatim>\<open>null\<close> included; and the
  listener, run in any state without a snapshot, dispatches \<^verbatim>\<open>'idle'\<close> with \<^verbatim>\<open>null\<close> and
  nothing else, whatever the stored previous revision is.
\<close>

theorem C9_idle_on_every_drain_and_no_change_without_cart:
  assumes "s = run (init cfg nf) ins"
  shows "CartEvent ''change'' None \<notin> set (dispatched s) \<and>
         ((t, InFlight) \<in> set (active (queue s)) \<and> waiting (queue s) = [] \<longrightarrow>
            (\<exists>es es'. dispatched (step s (Settle (tid t) out)) =
               dispatched s @ es @
               CartEvent ''idle'' (if notifyFirst (queue s) then cart s
                                   else cart (step s (Settle (tid t) out))) # es')) \<and>
         (\<forall>x :: ('a, 'b, 'c) AsyncCart.
            cart x = None \<longrightarrow> dispatched (onIdle x) = dispatched x @ [CartEvent ''idle'' None])"
proof -
  have wf: "wellFormed s" using reachable_invariants[of cfg nf ins] assms by simp
  have 1: "CartEvent ''change'' None \<notin> set (dispatched s)"
    using quiet_reachable[of cfg nf ins] assms by (auto simp: list_all_iff quiet_def)
  have 2: "\<exists>es es'. dispatched (step s (Settle (tid t) out)) =
               dispatched s @ es @
               CartEvent ''idle'' (if notifyFirst (queue s) then cart s
                                   else cart (step s (Settle (tid t) out))) # es'"
    if "(t, InFlight) \<in> set (active (queue s))" "waiting (queue s) = []"
    unfolding step_inflight[OF wf that(1)]
    using settle_effect(6)[OF wf inflight_only[OF wf that(1)] that(2)] .
  have 3: "dispatched (onIdle x) = dispatched x @ [CartEvent ''idle'' None]" if "cart x = None"
    for x :: "('a, 'b, 'c) AsyncCart"
    using that by (simp add: onIdle_dispatched)
  show ?thesis using 1 2 3 by blast
qed

theorem C9_idle_with_null_witness:
  "(\<lparr>tid = 0, operation = Create emptyInput, result = None, currentRevisionId = None,
      caller = Caller\<rparr>, InFlight) \<in> set (active (queue (run (fresh True) [Call (Create emptyInput)]))) \<and>
   waiting (queue (run (fresh True) [Call (Create emptyInput)])) = [] \<and>
   cart (run (fresh True) [Call (Create emptyInput)]) = None \<and>
   (\<exists>es es'. dispatched (step (run (fresh True) [Call (Create emptyInput)])
                             (Settle 0 (Inr (''c'', ''r1'')))) =
      dispatched (run (fresh True) [Call (Create emptyInput)]) @ es @
      CartEvent ''idle'' None # es') \<and>
   CartEvent ''change'' None \<notin> set (dispatched (run (fresh True) [Call (Create emptyInput)]))"
proof -
  let ?ins = "[Call (Create emptyInput)] :: (string \<times> string, string, string) input list"
  let ?s = "run (init exampleConfig True) ?ins"
  let ?t = "\<lparr>tid = 0, operation = Create emptyInput, result = None, currentRevisionId = None,
      caller = Caller\<rparr> :: (string \<times> string, string, string) task"
  have a: "(?t, InFlight) \<in> set (active (queue ?s))" "waiting (queue ?s) = []"
    by (simp_all add: evals)
  have b: "cart ?s = None" "notifyFirst (queue ?s) = True" by (simp_all add: evals)
  have c: "tid ?t = 0" by simp
  note th = C9_idle_on_every_drain_and_no_change_without_cart
      [OF refl, of exampleConfig True ?ins ?t "Inr (''c'', ''r1'')", unfolded c]
  have 1: "CartEvent ''change'' None \<notin> set (dispatched ?s)" using th by blast
  have "\<exists>es es'. dispatched (step ?s (Settle 0 (Inr (''c'', ''r1'')))) =
      dispatched ?s @ es @
      CartEvent ''idle'' (if notifyFirst (queue ?s) then cart ?s
                          else cart (step ?s (Settle 0 (Inr (''c'', ''r1''))))) # es'"
    using th a by blast
  then have 2: "\<exists>es es'. dispatched (step ?s (Settle 0 (Inr (''c'', ''r1'')))) =
      dispatched ?s @ es @ CartEvent ''idle'' None # es'"
    by (simp only: b if_True)
  show ?thesis unfolding fresh_def using a b(1) 1 2 by blast
qed

text \<open>
  C10. An operation is called in the state \<open>s0\<close> and its task is later in flight in the
  state \<open>s\<close>. If the provider then rejects, the value \<^verbatim>\<open>runCartOperation\<close> returns is the
  snapshot of \<open>s0\<close> (\<^verbatim>\<open>null\<close> when there was none), whatever the snapshot of \<open>s\<close> is, and this
  is the value the caller's promise resolves with (nobody holds the promise when the
  operation is \<^verbatim>\<open>fetch\<close>).
\<close>

theorem C10_failed_operation_returns_the_snapshot_read_at_the_call:
  assumes "s0 = run (init cfg nf) pre" and "s = run (step s0 (Call opn)) post"
    and "(t, InFlight) \<in> set (active (queue s))" and "tid t = submitted s0"
  shows "returnValue t (Inl e) = cart s0 \<and>
         returned (step s (Settle (tid t) (Inl e))) =
           returned s @ (if isFetch opn then [] else [(submitted s0, Snapshot (cart s0))])"
proof -
  have i0: "wellFormed s0" "numbered s0"
    using reachable_invariants[of cfg nf pre] assms(1) by simp_all
  have "s = run (init cfg nf) (pre @ Call opn # post)"
    using assms(1,2) by (simp add: run_def)
  then have wf: "wellFormed s" using reachable_invariants[of cfg nf "pre @ Call opn # post"] by simp
  have act: "active (queue s) = [(t, InFlight)]" using wf assms(3) by (rule inflight_only)
  have st: "step s (Settle (tid t) (Inl e)) = settle t (Inl e) s"
    using wf assms(3) by (rule step_inflight)
  have "s = run (callMethod opn s0) post" using assms(2) by simp
  from task_of_call[OF i0 this inflight_task[OF assms(3)] assms(4)]
  have t: "result t = cart s0" "caller t = (if isFetch opn then Discarded else Caller)"
    by (metis task.select_convs(3), metis (lifting) task.select_convs(5))
  show ?thesis
    unfolding st settle_effect(3)[OF wf act] using t assms(4)
    by (simp add: returnValue_def)
qed

theorem C10_snapshot_read_at_the_call_witness:
  "cart (run (fresh True) [Call (Create emptyInput), Call (Create emptyInput),
           Settle 0 (Inr (''c'', ''r1''))]) = Some (''c'', ''r1'') \<and>
   cart (run (fresh True) [Call (Create emptyInput)]) = None \<and>
   returned (run (fresh True) [Call (Create emptyInput), Call (Create emptyInput),
           Settle 0 (Inr (''c'', ''r1'')), Settle 1 (Inl (Rejected ''refused''))]) =
     returned (run (fresh True) [Call (Create emptyInput), Call (Create emptyInput),
           Settle 0 (Inr (''c'', ''r1''))]) @ [(1, Snapshot None)]"
proof -
  let ?pre = "[Call (Create emptyInput)] :: (string \<times> string, string, string) input list"
  let ?post = "[Settle 0 (Inr (''c'', ''r1''))] :: (string \<times> string, string, string) input list"
  let ?a = "run (init exampleConfig True) ?pre"
  let ?s = "run (step ?a (Call (Create emptyInput))) ?post"
  let ?t = "\<lparr>tid = 1, operation = Create emptyInput, result = None, currentRevisionId = None,
      caller = Caller\<rparr> :: (string \<times> string, string, string) task"
  have a: "(?t, InFlight) \<in> set (active (queue ?s))" by (simp add: evals)
  have b: "tid ?t = submitted ?a" by (simp add: evals)
  have c: "cart ?s = Some (''c'', ''r1'')" "cart ?a = None" "submitted ?a = 1"
    by (simp_all add: evals)
  have d: "tid ?t = 1" by simp
  have l: "run (fresh True) [Call (Create emptyInput), Call (Create emptyInput),
           Settle 0 (Inr (''c'', ''r1''))] = ?s"
    "run (fresh True) [Call (Create emptyInput), Call (Create emptyInput),
           Settle 0 (Inr (''c'', ''r1'')), Settle 1 (Inl (Rejected ''refused''))] =
     step ?s (Settle 1 (Inl (Rejected ''refused'')))"
    "run (fresh True) [Call (Create emptyInput)] = ?a"
    by (simp_all add: run_def fresh_def)
  note th = C10_failed_operation_returns_the_snapshot_read_at_the_call
     [OF refl refl a b, of "Rejected ''refused''", unfolded d]
  have "returned (step ?s (Settle 1 (Inl (Rejected ''refused'')))) =
          returned ?s @ [(1, Snapshot None)]"
    using th c(2,3) by simp
  then show ?thesis unfolding l using c(1,2) by blast
qed

end
